theory Spec2Isabelle
  imports Complex_Main "HOL-Library.Product_Lexorder" "HOL-Library.Multiset" "HOL-Library.FSet"
begin

section \<open>Python lists and errors\<close>

text \<open>
  The core raises IndexError on a list read or write whose index is out of range; building
  the adjacency dictionary raises KeyError on a missing key. A Python index \<open>i\<close> into a list of
  length \<open>n\<close> denotes position \<open>i\<close> when \<open>0 \<le> i < n\<close> and position \<open>n + i\<close> when \<open>-n \<le> i < 0\<close>.
\<close>

datatype error = IndexError | KeyError

definition py_index :: "'a list \<Rightarrow> int \<Rightarrow> nat option" where
  "py_index xs i =
     (let n = int (length xs); j = (if i < 0 then n + i else i)
      in if 0 \<le> j \<and> j < n then Some (nat j) else None)"

definition py_get :: "'a list \<Rightarrow> int \<Rightarrow> error + 'a" where
  "py_get xs i = (case py_index xs i of None \<Rightarrow> Inl IndexError | Some k \<Rightarrow> Inr (xs ! k))"

definition py_set :: "'a list \<Rightarrow> int \<Rightarrow> 'a \<Rightarrow> error + 'a list" where
  "py_set xs i v = (case py_index xs i of None \<Rightarrow> Inl IndexError | Some k \<Rightarrow> Inr (xs[k := v]))"

section \<open>Disjoint Set Union\<close>

text \<open>
  \<^verbatim>\<open>
  class DSU:
      def __init__(self, n):
          self.parent = list(range(n))
          self.rank = [1] * n
  \<close>
  \<open>range(n)\<close> is empty for \<open>n \<le> 0\<close>, and so is \<open>[1] * n\<close>. The class is the same in both
  scripts.
\<close>

record dsu =
  parent :: "int list"
  rank :: "int list"

definition create :: "int \<Rightarrow> dsu" where
  "create n = \<lparr>parent = [0..n - 1], rank = replicate (nat n) 1\<rparr>"

text \<open>
  \<^verbatim>\<open>
  def find(self, i):
      if self.parent[i] == i:
          return i
      self.parent[i] = self.find(self.parent[i])
      return self.parent[i]
  \<close>
  The recursion follows parent pointers and need not end on an arbitrary parent array, so
  \<open>find\<close> is a partial function: \<open>None\<close> is a call that never returns, \<open>Some (Inl e)\<close> a
  call that raises \<open>e\<close>, \<open>Some (Inr (s', r))\<close> a call that returns \<open>r\<close> and leaves the object
  in state \<open>s'\<close>. (The interpreter's recursion limit is not modelled.)
\<close>

partial_function (option) find :: "dsu \<Rightarrow> int \<Rightarrow> (error + dsu \<times> int) option" where
  "find s i =
     (case py_get (parent s) i of
        Inl e \<Rightarrow> Some (Inl e)
      | Inr p \<Rightarrow>
          if p = i then Some (Inr (s, i))
          else Option.bind (find s p) (\<lambda>res.
            case res of
              Inl e \<Rightarrow> Some (Inl e)
            | Inr (s1, r) \<Rightarrow>
                (case py_set (parent s1) i r of
                   Inl e \<Rightarrow> Some (Inl e)
                 | Inr ps \<Rightarrow>
                     (case py_get ps i of
                        Inl e \<Rightarrow> Some (Inl e)
                      | Inr v \<Rightarrow> Some (Inr (s1\<lparr>parent := ps\<rparr>, v))))))"

declare find.simps [code]

text \<open>
  The body of \<open>union\<close> once both roots are known and differ:
  \<^verbatim>\<open>
  if self.rank[root_x] < self.rank[root_y]:
      self.parent[root_x] = root_y
  elif self.rank[root_x] > self.rank[root_y]:
      self.parent[root_y] = root_x
  else:
      self.parent[root_y] = root_x
      self.rank[root_x] += 1
  \<close>
\<close>

definition union_roots :: "dsu \<Rightarrow> int \<Rightarrow> int \<Rightarrow> error + dsu" where
  "union_roots s root_x root_y =
     (case py_get (rank s) root_x of
        Inl e \<Rightarrow> Inl e
      | Inr rx \<Rightarrow>
          (case py_get (rank s) root_y of
             Inl e \<Rightarrow> Inl e
           | Inr ry \<Rightarrow>
               if rx < ry then
                 (case py_set (parent s) root_x root_y of
                    Inl e \<Rightarrow> Inl e
                  | Inr ps \<Rightarrow> Inr (s\<lparr>parent := ps\<rparr>))
               else if rx > ry then
                 (case py_set (parent s) root_y root_x of
                    Inl e \<Rightarrow> Inl e
                  | Inr ps \<Rightarrow> Inr (s\<lparr>parent := ps\<rparr>))
               else
                 (case py_set (parent s) root_y root_x of
                    Inl e \<Rightarrow> Inl e
                  | Inr ps \<Rightarrow>
                      (case py_set (rank s) root_x (rx + 1) of
                         Inl e \<Rightarrow> Inl e
                       | Inr rk \<Rightarrow> Inr (s\<lparr>parent := ps, rank := rk\<rparr>)))))"

text \<open>
  \<^verbatim>\<open>
  def union(self, x, y):
      root_x = self.find(x)
      root_y = self.find(y)
      if root_x != root_y:
          ...
          return True
      return False
  \<close>
\<close>

definition union :: "dsu \<Rightarrow> int \<Rightarrow> int \<Rightarrow> (error + dsu \<times> bool) option" where
  "union s x y =
     Option.bind (find s x) (\<lambda>res_x.
       case res_x of
         Inl e \<Rightarrow> Some (Inl e)
       | Inr (s1, root_x) \<Rightarrow>
           Option.bind (find s1 y) (\<lambda>res_y.
             case res_y of
               Inl e \<Rightarrow> Some (Inl e)
             | Inr (s2, root_y) \<Rightarrow>
                 if root_x \<noteq> root_y then
                   (case union_roots s2 root_x root_y of
                      Inl e \<Rightarrow> Some (Inl e)
                    | Inr s3 \<Rightarrow> Some (Inr (s3, True)))
                 else Some (Inr (s2, False))))"

text \<open>The states a DSU object can be in: created, then any calls that returned.\<close>

inductive reachable :: "dsu \<Rightarrow> bool" where
  reach_create: "reachable (create n)"
| reach_find: "reachable s \<Longrightarrow> find s i = Some (Inr (s', r)) \<Longrightarrow> reachable s'"
| reach_union: "reachable s \<Longrightarrow> union s x y = Some (Inr (s', b)) \<Longrightarrow> reachable s'"

subsection \<open>Representation invariant\<close>

text \<open>
  Every parent pointer stays inside the array, and the rank strictly increases from a
  vertex to its parent. The second part is what union by rank maintains and what makes
  every parent chain end.
\<close>

definition dsu_inv :: "dsu \<Rightarrow> bool" where
  "dsu_inv s \<longleftrightarrow>
     length (rank s) = length (parent s) \<and>
     (\<forall>k < length (parent s).
        0 \<le> parent s ! k \<and> parent s ! k < int (length (parent s)) \<and>
        (parent s ! k \<noteq> int k \<longrightarrow> rank s ! k < rank s ! nat (parent s ! k)))"

text \<open>\<open>root_of p k r\<close>: following parent pointers in \<open>p\<close> from position \<open>k\<close> ends at the root \<open>r\<close>.\<close>

inductive root_of :: "int list \<Rightarrow> nat \<Rightarrow> nat \<Rightarrow> bool" for p :: "int list" where
  root_here: "k < length p \<Longrightarrow> p ! k = int k \<Longrightarrow> root_of p k k"
| root_step: "k < length p \<Longrightarrow> p ! k \<noteq> int k \<Longrightarrow> 0 \<le> p ! k \<Longrightarrow>
     root_of p (nat (p ! k)) r \<Longrightarrow> root_of p k r"

text \<open>
  \<open>compressed s s'\<close>: \<open>s'\<close> differs from \<open>s\<close> by path compression only. The rank array
  and every root are the same, and a parent pointer that changed now points at the root of
  its set.
\<close>

definition compressed :: "dsu \<Rightarrow> dsu \<Rightarrow> bool" where
  "compressed s s' \<longleftrightarrow>
     rank s' = rank s \<and> length (parent s') = length (parent s) \<and>
     (\<forall>j x. root_of (parent s') j x \<longleftrightarrow> root_of (parent s) j x) \<and>
     (\<forall>j < length (parent s).
        parent s' ! j = parent s ! j \<or> root_of (parent s) j (nat (parent s' ! j)))"

section \<open>Graphs and results\<close>

text \<open>
  An edge is the list \<open>[node1, node2, weight]\<close>. Weights are modelled as real numbers. In
  the engines of the next sections sums are exact, as they are for the integer weights of
  Python; the engines with the rounded addition of Python floats follow in the section on
  floating-point accumulation.
\<close>

type_synonym edge = "int \<times> int \<times> real"

type_synonym adjacency = "int \<rightharpoonup> (int \<times> real) list"

record mst_result =
  mst_cost :: real
  mst_edges :: "edge list"

section \<open>Kruskal's algorithm\<close>

text \<open>
  \<^verbatim>\<open>
  def kruskals_mst(num_vertices, edge_list):
      sorted_edge_list = sorted(edge_list, key=lambda item: item[2])
      dsu = DSU(num_vertices)
      mst_cost = 0
      mst_edges = []
      for node1, node2, weight in sorted_edge_list:
          if dsu.union(node1, node2):
              mst_cost += weight
              mst_edges.append([node1, node2, weight])
              if len(mst_edges) == num_vertices - 1:
                  break
      return mst_cost, mst_edges
  \<close>
  The variables of a run, the caller's list among them, form the state that the loop
  passes on. \<open>sorted\<close> returns a new list in ascending order of the key and keeps the
  order of equal keys, as \<open>sort_key\<close> does.
\<close>

record kruskal_vars = mst_result +
  edge_list :: "edge list"
  dsu :: dsu

fun kruskal_loop :: "int \<Rightarrow> edge list \<Rightarrow> kruskal_vars \<Rightarrow> (error + kruskal_vars) option" where
  "kruskal_loop num_vertices [] st = Some (Inr st)"
| "kruskal_loop num_vertices ((node1, node2, weight) # rest) st =
     Option.bind (union (dsu st) node1 node2) (\<lambda>res.
       case res of
         Inl e \<Rightarrow> Some (Inl e)
       | Inr (d, merged) \<Rightarrow>
           if merged then
             (let st' = st\<lparr>dsu := d, mst_cost := mst_cost st + weight,
                            mst_edges := mst_edges st @ [(node1, node2, weight)]\<rparr>
              in if int (length (mst_edges st')) = num_vertices - 1 then Some (Inr st')
                 else kruskal_loop num_vertices rest st')
           else kruskal_loop num_vertices rest (st\<lparr>dsu := d\<rparr>))"

definition kruskals_run :: "int \<Rightarrow> edge list \<Rightarrow> (error + kruskal_vars) option" where
  "kruskals_run num_vertices es =
     (let sorted_edge_list = sort_key (\<lambda>(node1, node2, weight). weight) es
      in kruskal_loop num_vertices sorted_edge_list
           \<lparr>mst_cost = 0, mst_edges = [], edge_list = es, dsu = create num_vertices\<rparr>)"

definition kruskals_mst :: "int \<Rightarrow> edge list \<Rightarrow> (error + real \<times> edge list) option" where
  "kruskals_mst num_vertices es =
     map_option (map_sum id (\<lambda>st. (mst_cost st, mst_edges st))) (kruskals_run num_vertices es)"

section \<open>Prim's algorithm\<close>

text \<open>
  \<^verbatim>\<open>
  def prims_mst(num_vertices, adj_list):
      if num_vertices == 0:
          return 0, []
      min_heap = []
      visited = set()
      mst_cost = 0
      mst_edges = []
      start_vertex = 0
      visited.add(start_vertex)
      for neighbor, weight in adj_list.get(start_vertex, []):
          heapq.heappush(min_heap, (weight, start_vertex, neighbor))
      while min_heap and len(visited) < num_vertices:
          weight, u, v = heapq.heappop(min_heap)
          if v not in visited:
              visited.add(v)
              mst_cost += weight
              mst_edges.append([u, v, weight])
              for next_neighbor, next_weight in adj_list.get(v, []):
                  if next_neighbor not in visited:
                      heapq.heappush(min_heap, (next_weight, v, next_neighbor))
      return mst_cost, mst_edges
  \<close>
  The heap holds tuples \<open>(weight, u, v)\<close>, which Python compares lexicographically. Of the
  library's heap only its contract is modelled: \<open>heappush\<close> adds an item, \<open>heappop\<close> removes
  and returns the least one. The list below is the bag of items, not the array layout.
  The loop calls \<open>heappop\<close> on a non-empty heap only.
\<close>

type_synonym heap_entry = "real \<times> int \<times> int"

definition heappush :: "heap_entry list \<Rightarrow> heap_entry \<Rightarrow> heap_entry list" where
  "heappush h x = h @ [x]"

definition heappop :: "heap_entry list \<Rightarrow> heap_entry \<times> heap_entry list" where
  "heappop h = (Min (set h), remove1 (Min (set h)) h)"

record prim_vars = mst_result +
  adj_list :: adjacency
  min_heap :: "heap_entry list"
  visited :: "int fset"

definition adj_get :: "adjacency \<Rightarrow> int \<Rightarrow> (int \<times> real) list" where
  "adj_get adj v = (case adj v of None \<Rightarrow> [] | Some ns \<Rightarrow> ns)"

fun push_start :: "int \<Rightarrow> (int \<times> real) list \<Rightarrow> heap_entry list \<Rightarrow> heap_entry list" where
  "push_start start_vertex [] h = h"
| "push_start start_vertex ((neighbor, weight) # rest) h =
     push_start start_vertex rest (heappush h (weight, start_vertex, neighbor))"

fun push_neighbors ::
  "int \<Rightarrow> int fset \<Rightarrow> (int \<times> real) list \<Rightarrow> heap_entry list \<Rightarrow> heap_entry list" where
  "push_neighbors v vis [] h = h"
| "push_neighbors v vis ((next_neighbor, next_weight) # rest) h =
     push_neighbors v vis rest
       (if next_neighbor |\<notin>| vis then heappush h (next_weight, v, next_neighbor) else h)"

function prim_loop :: "int \<Rightarrow> prim_vars \<Rightarrow> prim_vars" where
  "prim_loop num_vertices st =
     (if min_heap st \<noteq> [] \<and> int (fcard (visited st)) < num_vertices then
        (case heappop (min_heap st) of
           ((weight, u, v), h) \<Rightarrow>
             if v |\<notin>| visited st then
               prim_loop num_vertices
                 (st\<lparr>visited := finsert v (visited st),
                     mst_cost := mst_cost st + weight,
                     mst_edges := mst_edges st @ [(u, v, weight)],
                     min_heap := push_neighbors v (finsert v (visited st))
                                   (adj_get (adj_list st) v) h\<rparr>)
             else prim_loop num_vertices (st\<lparr>min_heap := h\<rparr>))
      else st)"
  by pat_completeness auto
termination
proof (relation "measures [\<lambda>(n, st). nat (n - int (fcard (visited st))),
                           \<lambda>(n, st). length (min_heap st)]", goal_cases)
  case 1
  show ?case by simp
next
  case (2 num_vertices st x1 h weight x2 u v)
  then show ?case by (simp add: fcard_finsert_disjoint)
next
  case (3 num_vertices st x1 h weight x2 u v)
  then have "Min (set (min_heap st)) \<in> set (min_heap st)" by (intro Min_in) auto
  with 3 show ?case by (auto simp: heappop_def length_remove1)
qed

declare prim_loop.simps [simp del]

definition prims_init :: "adjacency \<Rightarrow> prim_vars" where
  "prims_init adj =
     \<lparr>mst_cost = 0, mst_edges = [], adj_list = adj,
      min_heap = push_start 0 (adj_get adj 0) [], visited = {|0|}\<rparr>"

definition prims_run :: "int \<Rightarrow> adjacency \<Rightarrow> prim_vars" where
  "prims_run num_vertices adj = prim_loop num_vertices (prims_init adj)"

definition prims_mst :: "int \<Rightarrow> adjacency \<Rightarrow> real \<times> edge list" where
  "prims_mst num_vertices adj =
     (if num_vertices = 0 then (0, [])
      else (let st = prims_run num_vertices adj in (mst_cost st, mst_edges st)))"

section \<open>Building the graph\<close>

text \<open>
  The loop of \<open>main\<close> that fills both representations from the rows, whose vertex
  identifiers are already remapped:
  \<^verbatim>\<open>
  edge_list = []
  adj_list = {i: [] for i in range(num_vertices)}
  for _, row in data_df.iterrows():
      ...
      edge_list.append([remapped_source, remapped_dest, weight])
      adj_list[remapped_source].append((remapped_dest, weight))
      adj_list[remapped_dest].append((remapped_source, weight))
  \<close>
  Subscripting the dictionary with a key it does not hold raises KeyError.
\<close>

fun build_loop :: "edge list \<Rightarrow> edge list \<times> adjacency \<Rightarrow> error + edge list \<times> adjacency" where
  "build_loop [] g = Inr g"
| "build_loop ((remapped_source, remapped_dest, weight) # rows) (el, adj) =
     (case adj remapped_source of
        None \<Rightarrow> Inl KeyError
      | Some ns \<Rightarrow>
          (let adj1 = adj(remapped_source \<mapsto> ns @ [(remapped_dest, weight)])
           in case adj1 remapped_dest of
                None \<Rightarrow> Inl KeyError
              | Some ms \<Rightarrow>
                  build_loop rows
                    (el @ [(remapped_source, remapped_dest, weight)],
                     adj1(remapped_dest \<mapsto> ms @ [(remapped_source, weight)]))))"

definition build_graph :: "int \<Rightarrow> edge list \<Rightarrow> error + edge list \<times> adjacency" where
  "build_graph num_vertices rows =
     build_loop rows ([], \<lambda>i. if 0 \<le> i \<and> i < num_vertices then Some [] else None)"

section \<open>Remapping vertex identifiers\<close>

text \<open>
  \<^verbatim>\<open>
  all_node_ids = set(data_df["node1_orig"]).union(set(data_df["node2_orig"]))
  num_vertices = len(all_node_ids)
  map_id_to_idx = {original_id: i for i, original_id in enumerate(all_node_ids)}
  \<close>
  The order in which Python enumerates a set is not fixed by the language. The model takes
  the enumeration as a list \<open>ids\<close> without repetitions.
\<close>

definition map_id_to_idx :: "int list \<Rightarrow> int \<rightharpoonup> int" where
  "map_id_to_idx ids = map_of (zip ids (map int [0..<length ids]))"

text \<open>
  The other script computes an offset instead:
  \<^verbatim>\<open>
  id_offset = 0
  if min_id_from_file == 1 and max_id_from_file == actual_num_distinct_nodes:
      id_offset = 1
  elif min_id_from_file == 0 and max_id_from_file == actual_num_distinct_nodes - 1:
      ...
  else:
      if min_id_from_file != 0:
          id_offset = min_id_from_file
  \<close>
\<close>

definition all_node_ids_in_file :: "(int \<times> int) list \<Rightarrow> int list" where
  "all_node_ids_in_file rows = remdups (map fst rows @ map snd rows)"

definition id_offset :: "(int \<times> int) list \<Rightarrow> int" where
  "id_offset rows =
     (let ids = all_node_ids_in_file rows;
          min_id_from_file = Min (set ids);
          max_id_from_file = Max (set ids);
          actual_num_distinct_nodes = int (length ids)
      in if min_id_from_file = 1 \<and> max_id_from_file = actual_num_distinct_nodes then 1
         else if min_id_from_file = 0 \<and> max_id_from_file = actual_num_distinct_nodes - 1 then 0
         else if min_id_from_file \<noteq> 0 then min_id_from_file else 0)"

definition remap_rows :: "(int \<times> int) list \<Rightarrow> (int \<times> int) list" where
  "remap_rows rows =
     map (\<lambda>(source_orig, destination_orig).
            (source_orig - id_offset rows, destination_orig - id_offset rows)) rows"

section \<open>Kruskal's algorithm, first script\<close>

text \<open>
  The first script sorts with \<open>sorted(edge_list, key=cmp_to_key(comparator))\<close>, where
  \<open>comparator(a, b)\<close> is \<open>a[2] - b[2]\<close>: the same stable order by weight. It returns the
  cost alone, after printing a warning when fewer than \<open>num_total_vertices - 1\<close> edges were
  selected. The loop state is \<open>(edge_list, dsu, cost, mst_edge_count)\<close>, with \<open>cost\<close> for
  the variable \<open>mst_cost\<close>.
  \<^verbatim>\<open>
  for node1, node2, weight in sorted_edge_list:
      if dsu.find(node1) != dsu.find(node2):
          dsu.union(node1, node2)
          mst_cost += weight
          mst_edge_count += 1
          if mst_edge_count == num_total_vertices - 1:
              break
  \<close>
\<close>

type_synonym index_vars = "edge list \<times> dsu \<times> real \<times> int"

fun kruskal_loop_index :: "int \<Rightarrow> edge list \<Rightarrow> index_vars \<Rightarrow> (error + index_vars) option" where
  "kruskal_loop_index num_total_vertices [] st = Some (Inr st)"
| "kruskal_loop_index num_total_vertices ((node1, node2, weight) # rest)
       (el, d, cost, mst_edge_count) =
     Option.bind (find d node1) (\<lambda>res1.
       case res1 of
         Inl e \<Rightarrow> Some (Inl e)
       | Inr (d1, r1) \<Rightarrow>
           Option.bind (find d1 node2) (\<lambda>res2.
             case res2 of
               Inl e \<Rightarrow> Some (Inl e)
             | Inr (d2, r2) \<Rightarrow>
                 if r1 \<noteq> r2 then
                   Option.bind (union d2 node1 node2) (\<lambda>res3.
                     case res3 of
                       Inl e \<Rightarrow> Some (Inl e)
                     | Inr (d3, merged) \<Rightarrow>
                         if mst_edge_count + 1 = num_total_vertices - 1
                         then Some (Inr (el, d3, cost + weight, mst_edge_count + 1))
                         else kruskal_loop_index num_total_vertices rest
                                (el, d3, cost + weight, mst_edge_count + 1))
                 else kruskal_loop_index num_total_vertices rest
                        (el, d2, cost, mst_edge_count)))"

definition kruskals_run_index :: "int \<Rightarrow> edge list \<Rightarrow> (error + index_vars) option" where
  "kruskals_run_index num_total_vertices es =
     (let sorted_edge_list = sort_key (\<lambda>(node1, node2, weight). weight) es
      in kruskal_loop_index num_total_vertices sorted_edge_list
           (es, create num_total_vertices, 0, 0))"

definition kruskals_mst_index :: "int \<Rightarrow> edge list \<Rightarrow> (error + real) option" where
  "kruskals_mst_index num_total_vertices es =
     map_option (map_sum id (\<lambda>(el, d, cost, mst_edge_count). cost))
       (kruskals_run_index num_total_vertices es)"

section \<open>Notions used in the statements\<close>

definition edge_dst :: "edge \<Rightarrow> int" where
  "edge_dst e = fst (snd e)"

definition edge_weight :: "edge \<Rightarrow> real" where
  "edge_weight e = snd (snd e)"

text \<open>
  \<open>rooted_forest vis es\<close>: read in order, every edge of \<open>es\<close> leads from a vertex that is
  already in \<open>vis\<close> to one that is not, which then joins \<open>vis\<close>.
\<close>

fun rooted_forest :: "int set \<Rightarrow> edge list \<Rightarrow> bool" where
  "rooted_forest vis [] = True"
| "rooted_forest vis ((u, v, w) # es) = (u \<in> vis \<and> v \<notin> vis \<and> rooted_forest (insert v vis) es)"

text \<open>What the loop of Prim's algorithm maintains.\<close>

definition prim_inv :: "prim_vars \<Rightarrow> bool" where
  "prim_inv st \<longleftrightarrow>
     rooted_forest {0} (mst_edges st) \<and>
     fset (visited st) = insert 0 (edge_dst ` set (mst_edges st)) \<and>
     (\<forall>x \<in> set (min_heap st). fst (snd x) |\<in>| visited st) \<and>
     mst_cost st = sum_list (map edge_weight (mst_edges st))"

section \<open>Graphs, spanning trees and the invariants of the engines\<close>

text \<open>
  \<open>adj_rel A\<close> relates the two endpoints of every edge of \<open>A\<close>, in both directions. A
  graph on the vertices \<open>0 .. V - 1\<close> is connected when every two of them are related by a
  path.
\<close>

definition adj_rel :: "edge set \<Rightarrow> (int \<times> int) set" where
  "adj_rel A = {(a, b). \<exists>w. (a, b, w) \<in> A \<or> (b, a, w) \<in> A}"

definition connected_graph :: "int \<Rightarrow> edge set \<Rightarrow> bool" where
  "connected_graph V A \<longleftrightarrow>
     (\<forall>a b. 0 \<le> a \<and> a < V \<and> 0 \<le> b \<and> b < V \<longrightarrow> (a, b) \<in> (adj_rel A)\<^sup>*)"

text \<open>\<open>und A\<close>: the edges of \<open>A\<close>, each in both orientations.\<close>

definition und :: "edge set \<Rightarrow> edge set" where
  "und A = {(a, b, w). (a, b, w) \<in> A \<or> (b, a, w) \<in> A}"

text \<open>An edge crosses the vertex set \<open>S\<close> when exactly one of its endpoints is in \<open>S\<close>.\<close>

definition crossing :: "int set \<Rightarrow> edge \<Rightarrow> bool" where
  "crossing S e \<longleftrightarrow> (fst e \<in> S \<longleftrightarrow> fst (snd e) \<notin> S)"

definition cost :: "edge multiset \<Rightarrow> real" where
  "cost T = sum_mset (image_mset edge_weight T)"

text \<open>
  \<open>spanning V E T\<close>: the bag \<open>T\<close> of \<open>V - 1\<close> edges of \<open>E\<close> connects the vertices
  \<open>0 .. V - 1\<close>. \<open>promising V E F\<close>: whatever spanning tree one takes, some spanning tree
  that contains \<open>F\<close> costs no more.
\<close>

definition spanning :: "int \<Rightarrow> edge set \<Rightarrow> edge multiset \<Rightarrow> bool" where
  "spanning V E T \<longleftrightarrow>
     set_mset T \<subseteq> und E \<and> int (size T) = V - 1 \<and> connected_graph V (set_mset T)"

definition promising :: "int \<Rightarrow> edge set \<Rightarrow> edge multiset \<Rightarrow> bool" where
  "promising V E F \<longleftrightarrow>
     (\<forall>T. spanning V E T \<longrightarrow> (\<exists>T'. spanning V E T' \<and> F \<subseteq># T' \<and> cost T' \<le> cost T))"

text \<open>The root of a position, and the set of roots, of a parent array.\<close>

definition rep_of :: "int list \<Rightarrow> nat \<Rightarrow> nat" where
  "rep_of p k = (THE r. root_of p k r)"

definition roots :: "int list \<Rightarrow> nat set" where
  "roots p = {k. k < length p \<and> p ! k = int k}"

text \<open>
  What the loop of Kruskal's algorithm maintains: the sets of the DSU are the connected
  components of the selected edges, every selected edge lowered the number of roots by
  one, and the selected edges are promising.
\<close>

definition kruskal_inv :: "int \<Rightarrow> edge set \<Rightarrow> kruskal_vars \<Rightarrow> bool" where
  "kruskal_inv V E st \<longleftrightarrow>
     dsu_inv (dsu st) \<and> int (length (parent (dsu st))) = V \<and>
     set (mst_edges st) \<subseteq> E \<and>
     (\<forall>a b. a < length (parent (dsu st)) \<and> b < length (parent (dsu st)) \<longrightarrow>
        (rep_of (parent (dsu st)) a = rep_of (parent (dsu st)) b \<longleftrightarrow>
         (int a, int b) \<in> (adj_rel (set (mst_edges st)))\<^sup>*)) \<and>
     mst_cost st = sum_list (map edge_weight (mst_edges st)) \<and>
     int (length (mst_edges st)) + int (card (roots (parent (dsu st)))) = V \<and>
     promising V E (mset (mst_edges st))"

text \<open>\<open>covered X F\<close>: the endpoints of every edge of \<open>X\<close> are connected by edges of \<open>F\<close>.\<close>

definition covered :: "edge set \<Rightarrow> edge set \<Rightarrow> bool" where
  "covered X F \<longleftrightarrow> (\<forall>e \<in> X. (fst e, fst (snd e)) \<in> (adj_rel F)\<^sup>*)"

text \<open>Every endpoint is a vertex index, \<open>0 \<le> i < V\<close>.\<close>

definition wf_edges :: "int \<Rightarrow> edge set \<Rightarrow> bool" where
  "wf_edges V E \<longleftrightarrow>
     (\<forall>e \<in> E. 0 \<le> fst e \<and> fst e < V \<and> 0 \<le> fst (snd e) \<and> fst (snd e) < V)"

text \<open>
  The edges an adjacency list holds; it is well formed when they stay inside \<open>0 .. V - 1\<close>
  and every edge is entered at both of its endpoints.
\<close>

definition adj_edges :: "adjacency \<Rightarrow> edge set" where
  "adj_edges adj = {(u, v, w). (v, w) \<in> set (adj_get adj u)}"

definition wf_adj :: "int \<Rightarrow> adjacency \<Rightarrow> bool" where
  "wf_adj V adj \<longleftrightarrow>
     wf_edges V (adj_edges adj) \<and>
     (\<forall>u v w. (u, v, w) \<in> adj_edges adj \<longrightarrow> (v, u, w) \<in> adj_edges adj)"

text \<open>
  What the loop of Prim's algorithm maintains on a well-formed adjacency list: the heap
  holds every edge that leaves the visited set, the selected edges connect the visited
  vertices to vertex 0, and the selected edges are promising.
\<close>

definition prim_full_inv :: "int \<Rightarrow> adjacency \<Rightarrow> prim_vars \<Rightarrow> bool" where
  "prim_full_inv V adj st \<longleftrightarrow>
     prim_inv st \<and> adj_list st = adj \<and>
     (\<forall>x \<in> set (min_heap st). (fst (snd x), snd (snd x), fst x) \<in> adj_edges adj) \<and>
     (\<forall>u v w. u |\<in>| visited st \<and> (u, v, w) \<in> adj_edges adj \<and> v |\<notin>| visited st \<longrightarrow>
        (w, u, v) \<in> set (min_heap st)) \<and>
     set (mst_edges st) \<subseteq> adj_edges adj \<and>
     (\<forall>a. a |\<in>| visited st \<longrightarrow> (0, a) \<in> (adj_rel (set (mst_edges st)))\<^sup>*) \<and>
     (\<forall>a. a |\<in>| visited st \<longrightarrow> 0 \<le> a \<and> a < V) \<and>
     promising V (adj_edges adj) (mset (mst_edges st))"

section \<open>Floating-point accumulation of the cost\<close>

text \<open>
  The second script reads every weight with \<open>float(row["peso"])\<close>, so
  \<open>mst_cost += weight\<close> is an addition of IEEE 754 double-precision numbers: the exact sum,
  rounded to the nearest number with a 53-bit significand, a tie going to the even
  significand. \<open>round_double\<close> is that rounding: for \<open>2^e \<le> |x| < 2^(e+1)\<close> the
  representable numbers are the integer multiples of \<open>2^(e - 52)\<close>. The exponent is not
  bounded: overflow to infinity (above about \<open>1.8e308\<close>), subnormal numbers (below about
  \<open>2.2e-308\<close>) and NaN are left out. The initial \<open>mst_cost = 0\<close> is the integer 0, and
  \<open>0 + w\<close> is \<open>w\<close> for every double \<open>w\<close>.
\<close>

definition round_half_even :: "real \<Rightarrow> int" where
  "round_half_even y =
     (let f = \<lfloor>y\<rfloor>; d = y - of_int f
      in if d < 1 / 2 then f else if 1 / 2 < d then f + 1 else if even f then f else f + 1)"

definition round_double :: "real \<Rightarrow> real" where
  "round_double x =
     (if x = 0 then 0
      else (let e = \<lfloor>log 2 \<bar>x\<bar>\<rfloor>; q = 2 powr of_int (e - 52)
            in of_int (round_half_even (x / q)) * q))"

definition fadd :: "real \<Rightarrow> real \<Rightarrow> real" where
  "fadd a b = round_double (a + b)"

text \<open>The relative error of one rounding is at most \<open>2^-53\<close>.\<close>

definition unit_roundoff :: real where
  "unit_roundoff = 1 / 2 ^ 53"

text \<open>
  The engines of the second script with that addition. Everything else is as in
  \<open>kruskal_loop\<close> and \<open>prim_loop\<close>: comparisons of doubles are exact.
\<close>

fun kruskal_loop_float ::
  "int \<Rightarrow> edge list \<Rightarrow> kruskal_vars \<Rightarrow> (error + kruskal_vars) option" where
  "kruskal_loop_float num_vertices [] st = Some (Inr st)"
| "kruskal_loop_float num_vertices ((node1, node2, weight) # rest) st =
     Option.bind (union (dsu st) node1 node2) (\<lambda>res.
       case res of
         Inl e \<Rightarrow> Some (Inl e)
       | Inr (d, merged) \<Rightarrow>
           if merged then
             (let st' = st\<lparr>dsu := d, mst_cost := fadd (mst_cost st) weight,
                            mst_edges := mst_edges st @ [(node1, node2, weight)]\<rparr>
              in if int (length (mst_edges st')) = num_vertices - 1 then Some (Inr st')
                 else kruskal_loop_float num_vertices rest st')
           else kruskal_loop_float num_vertices rest (st\<lparr>dsu := d\<rparr>))"

definition kruskals_run_float :: "int \<Rightarrow> edge list \<Rightarrow> (error + kruskal_vars) option" where
  "kruskals_run_float num_vertices es =
     (let sorted_edge_list = sort_key (\<lambda>(node1, node2, weight). weight) es
      in kruskal_loop_float num_vertices sorted_edge_list
           \<lparr>mst_cost = 0, mst_edges = [], edge_list = es, dsu = create num_vertices\<rparr>)"

definition kruskals_mst_float :: "int \<Rightarrow> edge list \<Rightarrow> (error + real \<times> edge list) option" where
  "kruskals_mst_float num_vertices es =
     map_option (map_sum id (\<lambda>st. (mst_cost st, mst_edges st)))
       (kruskals_run_float num_vertices es)"
function prim_loop_float :: "int \<Rightarrow> prim_vars \<Rightarrow> prim_vars" where
  "prim_loop_float num_vertices st =
     (if min_heap st \<noteq> [] \<and> int (fcard (visited st)) < num_vertices then
        (case heappop (min_heap st) of
           ((weight, u, v), h) \<Rightarrow>
             if v |\<notin>| visited st then
               prim_loop_float num_vertices
                 (st\<lparr>visited := finsert v (visited st),
                     mst_cost := fadd (mst_cost st) weight,
                     mst_edges := mst_edges st @ [(u, v, weight)],
                     min_heap := push_neighbors v (finsert v (visited st))
                                   (adj_get (adj_list st) v) h\<rparr>)
             else prim_loop_float num_vertices (st\<lparr>min_heap := h\<rparr>))
      else st)"
  by pat_completeness auto
termination
proof (relation "measures [\<lambda>(n, st). nat (n - int (fcard (visited st))),
                           \<lambda>(n, st). length (min_heap st)]", goal_cases)
  case 1
  show ?case by simp
next
  case (2 num_vertices st x1 h weight x2 u v)
  then show ?case by (simp add: fcard_finsert_disjoint)
next
  case (3 num_vertices st x1 h weight x2 u v)
  then have "Min (set (min_heap st)) \<in> set (min_heap st)" by (intro Min_in) auto
  with 3 show ?case by (auto simp: heappop_def length_remove1)
qed

declare prim_loop_float.simps [simp del]

definition prims_run_float :: "int \<Rightarrow> adjacency \<Rightarrow> prim_vars" where
  "prims_run_float num_vertices adj = prim_loop_float num_vertices (prims_init adj)"

definition prims_mst_float :: "int \<Rightarrow> adjacency \<Rightarrow> real \<times> edge list" where
  "prims_mst_float num_vertices adj =
     (if num_vertices = 0 then (0, [])
      else (let st = prims_run_float num_vertices adj in (mst_cost st, mst_edges st)))"

text \<open>
  \<open>float_sum ws\<close>: the weights \<open>ws\<close> added from left to right, starting from 0, each sum
  rounded. \<open>with_float_cost st\<close> replaces the cost of a state by that sum over the edges
  selected so far.
\<close>

definition float_sum :: "real list \<Rightarrow> real" where
  "float_sum ws = foldl fadd 0 ws"
definition with_float_cost :: "'a mst_result_scheme \<Rightarrow> 'a mst_result_scheme" where
  "with_float_cost st = st\<lparr>mst_cost := float_sum (map edge_weight (mst_edges st))\<rparr>"

section \<open>Properties of the Disjoint Set Union\<close>

subsection \<open>Indexing\<close>

lemma py_index_SomeD:
  "py_index xs i = Some k \<Longrightarrow> k < length xs \<and> (i = int k \<or> i = int k - int (length xs))"
  by (auto simp: py_index_def Let_def split: if_splits)

lemma py_index_nat [simp]: "k < length xs \<Longrightarrow> py_index xs (int k) = Some k"
  by (simp add: py_index_def)

lemma py_index_update [simp]: "py_index (xs[k := v]) i = py_index xs i"
  by (simp add: py_index_def)

lemma root_of_bound: "root_of p k r \<Longrightarrow> k < length p \<and> r < length p \<and> p ! r = int r"
  by (induction rule: root_of.induct) auto

lemma root_of_unique: "root_of p k r \<Longrightarrow> root_of p k r' \<Longrightarrow> r = r'"
proof (induction arbitrary: r' rule: root_of.induct)
  case (root_here k)
  from root_here.prems root_here.hyps show ?case
    by (cases rule: root_of.cases) auto
next
  case (root_step k r)
  from root_step.prems root_step.hyps(1,2) root_step.IH show ?case
    by (cases rule: root_of.cases) auto
qed

lemma root_of_root: "r < length p \<Longrightarrow> p ! r = int r \<Longrightarrow> root_of p r x \<longleftrightarrow> x = r"
  using root_of_unique root_here by blast

lemma rank_le_root:
  assumes "dsu_inv s" and "root_of (parent s) k r"
  shows "rank s ! k \<le> rank s ! r \<and> (k \<noteq> r \<longrightarrow> rank s ! k < rank s ! r)"
  using assms(2,1)
proof (induction rule: root_of.induct)
  case (root_here k)
  then show ?case by simp
next
  case (root_step k r)
  then have "rank s ! k < rank s ! nat (parent s ! k)"
    by (simp add: dsu_inv_def)
  with root_step show ?case by auto
qed

lemma root_exists:
  assumes "dsu_inv s" and "k < length (parent s)"
  shows "\<exists>r. root_of (parent s) k r"
  using assms(2)
proof (induction "nat (Max (set (rank s)) - rank s ! k)" arbitrary: k rule: less_induct)
  case less
  show ?case
  proof (cases "parent s ! k = int k")
    case True
    with less.prems show ?thesis by (blast intro: root_here)
  next
    case False
    let ?q = "nat (parent s ! k)"
    from assms(1) less.prems False
    have q: "0 \<le> parent s ! k" "?q < length (parent s)" "rank s ! k < rank s ! ?q"
      by (auto simp: dsu_inv_def)
    from assms(1) q(2) have "rank s ! ?q \<in> set (rank s)"
      by (simp add: dsu_inv_def)
    then have "rank s ! ?q \<le> Max (set (rank s))" by simp
    with q(3) have "nat (Max (set (rank s)) - rank s ! ?q) < nat (Max (set (rank s)) - rank s ! k)"
      by linarith
    from less.hyps [OF this q(2)] obtain r where "root_of (parent s) ?q r" ..
    with less.prems False q(1) show ?thesis by (blast intro: root_step)
  qed
qed

lemma compress_root_of:
  assumes kr: "root_of p k r"
  shows "root_of (p[k := int r]) j x \<longleftrightarrow> root_of p j x"
proof
  have kb: "k < length p" "r < length p" "p ! r = int r"
    using root_of_bound [OF kr] by auto
  have rr: "root_of (p[k := int r]) r r"
    using kb by (cases "r = k") (auto intro: root_here)
  {
    assume "root_of p j x"
    then show "root_of (p[k := int r]) j x"
    proof (induction rule: root_of.induct)
      case (root_here j)
      show ?case
      proof (cases "j = k")
        case True
        with root_here kr have "r = k" using root_of_root by blast
        with True rr show ?thesis by simp
      next
        case False
        with root_here show ?thesis by (auto intro: root_of.root_here)
      qed
    next
      case (root_step j x)
      show ?case
      proof (cases "j = k")
        case True
        have "root_of p k x" using root_step.hyps True by (auto intro: root_of.root_step)
        with kr have xr: "x = r" by (rule root_of_unique [symmetric])
        from True root_step.hyps kb have "r \<noteq> k" by auto
        have "root_of (p[k := int r]) k r"
        proof (rule root_of.root_step)
          show "root_of (p[k := int r]) (nat (p[k := int r] ! k)) r" using kb rr by simp
        qed (use kb \<open>r \<noteq> k\<close> in auto)
        with xr True show ?thesis by simp
      next
        case False
        with root_step show ?thesis by (auto intro: root_of.root_step)
      qed
    qed
  }
  {
    assume "root_of (p[k := int r]) j x"
    then show "root_of p j x"
    proof (induction rule: root_of.induct)
      case (root_here j)
      show ?case
      proof (cases "j = k")
        case True
        with root_here kb have "r = k" by simp
        with kr True show ?thesis by simp
      next
        case False
        with root_here show ?thesis by (auto intro: root_of.root_here)
      qed
    next
      case (root_step j x)
      show ?case
      proof (cases "j = k")
        case True
        with root_step kb have "root_of p r x" by simp
        with kb have "x = r" using root_of_root by blast
        with kr True show ?thesis by simp
      next
        case False
        with root_step show ?thesis by (auto intro: root_of.root_step)
      qed
    qed
  }
qed

lemma compressed_refl: "compressed s s"
  by (simp add: compressed_def)

lemma compressed_trans:
  assumes st: "compressed s t" and tu: "compressed t u"
  shows "compressed s u"
  unfolding compressed_def
proof (intro conjI allI impI)
  fix j assume j: "j < length (parent s)"
  with st have 1: "parent t ! j = parent s ! j \<or> root_of (parent s) j (nat (parent t ! j))"
    by (simp add: compressed_def)
  from j st tu have 2: "parent u ! j = parent t ! j \<or> root_of (parent s) j (nat (parent u ! j))"
    by (simp add: compressed_def)
  from 1 2 show "parent u ! j = parent s ! j \<or> root_of (parent s) j (nat (parent u ! j))"
    by auto
qed (use st tu in \<open>simp_all add: compressed_def\<close>)

lemma py_get_nat [simp]: "k < length xs \<Longrightarrow> py_get xs (int k) = Inr (xs ! k)"
  by (simp add: py_get_def)

lemma py_set_nat [simp]: "k < length xs \<Longrightarrow> py_set xs (int k) v = Inr (xs[k := v])"
  by (simp add: py_set_def)

lemma compress_step:
  assumes inv: "dsu_inv s" and kr: "root_of (parent s) k r"
  shows "dsu_inv (s\<lparr>parent := (parent s)[k := int r]\<rparr>)"
    and "compressed s (s\<lparr>parent := (parent s)[k := int r]\<rparr>)"
proof -
  have kb: "k < length (parent s)" "r < length (parent s)"
    using root_of_bound [OF kr] by auto
  have rk: "k \<noteq> r \<Longrightarrow> rank s ! k < rank s ! r"
    using rank_le_root [OF inv kr] by simp
  show "dsu_inv (s\<lparr>parent := (parent s)[k := int r]\<rparr>)"
    unfolding dsu_inv_def
  proof (intro conjI allI impI)
    fix j assume j: "j < length (parent (s\<lparr>parent := (parent s)[k := int r]\<rparr>))"
    show "0 \<le> parent (s\<lparr>parent := (parent s)[k := int r]\<rparr>) ! j"
      using inv j kb by (cases "j = k") (auto simp: dsu_inv_def)
    show "parent (s\<lparr>parent := (parent s)[k := int r]\<rparr>) ! j
          < int (length (parent (s\<lparr>parent := (parent s)[k := int r]\<rparr>)))"
      using inv j kb by (cases "j = k") (auto simp: dsu_inv_def)
    assume "parent (s\<lparr>parent := (parent s)[k := int r]\<rparr>) ! j \<noteq> int j"
    then show "rank (s\<lparr>parent := (parent s)[k := int r]\<rparr>) ! j
          < rank (s\<lparr>parent := (parent s)[k := int r]\<rparr>) !
            nat (parent (s\<lparr>parent := (parent s)[k := int r]\<rparr>) ! j)"
      using inv j kb rk by (cases "j = k") (auto simp: dsu_inv_def)
  qed (use inv in \<open>simp add: dsu_inv_def\<close>)
  show "compressed s (s\<lparr>parent := (parent s)[k := int r]\<rparr>)"
    unfolding compressed_def
  proof (intro conjI allI impI)
    fix j assume "j < length (parent s)"
    then show "parent (s\<lparr>parent := (parent s)[k := int r]\<rparr>) ! j = parent s ! j \<or>
        root_of (parent s) j (nat (parent (s\<lparr>parent := (parent s)[k := int r]\<rparr>) ! j))"
      using kr by (cases "j = k") auto
  qed (use compress_root_of [OF kr] in simp_all)
qed

lemma find_after_recursion:
  assumes inv: "dsu_inv s" and kr: "root_of (parent s) k r"
    and ik: "py_index (parent s) i = Some k"
    and ne: "parent s ! k \<noteq> i"
    and rec: "find s (parent s ! k) = Some (Inr (s1, int r))"
    and inv1: "dsu_inv s1" and c1: "compressed s s1"
  shows "\<exists>s'. find s i = Some (Inr (s', int r)) \<and> dsu_inv s' \<and> compressed s s' \<and>
           parent s' ! k = int r"
proof -
  let ?s' = "s1\<lparr>parent := (parent s1)[k := int r]\<rparr>"
  have k: "k < length (parent s)" using root_of_bound [OF kr] by simp
  have len: "length (parent s1) = length (parent s)" using c1 by (simp add: compressed_def)
  have kr1: "root_of (parent s1) k r" using c1 kr by (simp add: compressed_def)
  have ik1: "py_index (parent s1) i = Some k"
    using ik len by (simp add: py_index_def)
  have "find s i = Some (Inr (?s', int r))"
    using ik ik1 ne rec k len
    by (subst find.simps) (simp add: py_get_def py_set_def)
  moreover have "dsu_inv ?s'" by (rule compress_step(1) [OF inv1 kr1])
  moreover have "compressed s ?s'"
    using c1 compress_step(2) [OF inv1 kr1] by (rule compressed_trans)
  moreover have "parent ?s' ! k = int r" using k len by simp
  ultimately show ?thesis by blast
qed

lemma find_canonical:
  assumes inv: "dsu_inv s" and kr: "root_of (parent s) k r"
  shows "\<exists>s'. find s (int k) = Some (Inr (s', int r)) \<and> dsu_inv s' \<and> compressed s s' \<and>
           (k \<noteq> r \<longrightarrow> parent s' ! k = int r) \<and> (k = r \<longrightarrow> s' = s)"
  using kr
proof (induction rule: root_of.induct)
  case (root_here k)
  then have "find s (int k) = Some (Inr (s, int k))"
    by (subst find.simps) simp
  with inv show ?case by (auto simp: compressed_refl)
next
  case (root_step k r)
  from root_step.IH obtain s1 where s1:
    "find s (parent s ! k) = Some (Inr (s1, int r))" "dsu_inv s1" "compressed s s1"
    using root_step.hyps(3) by auto
  have kr': "root_of (parent s) k r"
    using root_step.hyps by (auto intro: root_of.root_step)
  have "k \<noteq> r" using root_of_bound [OF kr'] root_step.hyps(2) by auto
  with find_after_recursion [OF inv kr' _ root_step.hyps(2) s1] root_step.hyps(1)
  show ?case by auto
qed

lemma find_spec_parent:
  assumes inv: "dsu_inv s" and ik: "py_index (parent s) i = Some k"
  shows "\<exists>s' r. find s i = Some (Inr (s', int r)) \<and> root_of (parent s) k r \<and>
           dsu_inv s' \<and> compressed s s' \<and> parent s' ! k = int r"
proof -
  have k: "k < length (parent s)" using py_index_SomeD [OF ik] by simp
  from root_exists [OF inv k] obtain r where kr: "root_of (parent s) k r" ..
  show ?thesis
  proof (cases "parent s ! k = i")
    case True
    from inv k have "0 \<le> parent s ! k" by (simp add: dsu_inv_def)
    with True py_index_SomeD [OF ik] have i: "i = int k" by auto
    with True k have "root_of (parent s) k k" by (intro root_here) simp_all
    with kr have "r = k" by (rule root_of_unique)
    with find_canonical [OF inv kr] kr i True show ?thesis by auto
  next
    case False
    let ?q = "nat (parent s ! k)"
    from inv k have q: "0 \<le> parent s ! k" "?q < length (parent s)"
      by (auto simp: dsu_inv_def)
    from root_exists [OF inv q(2)] obtain r1 where qr: "root_of (parent s) ?q r1" ..
    have "root_of (parent s) k r1"
    proof (cases "parent s ! k = int k")
      case True
      then have "?q = k" by simp
      with qr show ?thesis by simp
    next
      case False
      from k False q(1) qr show ?thesis by (rule root_of.root_step)
    qed
    with kr have r1: "r1 = r" by (blast intro: root_of_unique)
    from find_canonical [OF inv qr] q(1) r1 obtain s1 where
      "find s (parent s ! k) = Some (Inr (s1, int r))" "dsu_inv s1" "compressed s s1"
      by auto
    from find_after_recursion [OF inv kr ik False this] kr show ?thesis by blast
  qed
qed

lemma find_spec:
  assumes inv: "dsu_inv s" and ik: "py_index (parent s) i = Some k"
  shows "\<exists>s' r. find s i = Some (Inr (s', int r)) \<and> root_of (parent s) k r \<and>
           dsu_inv s' \<and> compressed s s'"
  using find_spec_parent [OF assms] by blast

lemma find_error:
  "py_index (parent s) i = None \<Longrightarrow> find s i = Some (Inl IndexError)"
  by (subst find.simps) (simp add: py_get_def)

subsection \<open>Union\<close>

lemma link_root_of:
  assumes a: "a < length p" "p ! a = int a" and b: "b < length p" "p ! b = int b"
    and ab: "a \<noteq> b"
  shows "root_of (p[b := int a]) j x \<longleftrightarrow> (\<exists>y. root_of p j y \<and> x = (if y = b then a else y))"
proof
  have aa: "root_of (p[b := int a]) a a"
    using a ab by (intro root_here) auto
  have ba: "root_of (p[b := int a]) b a"
  proof (rule root_step)
    show "root_of (p[b := int a]) (nat (p[b := int a] ! b)) a" using aa b by simp
  qed (use b ab in auto)
  {
    assume "\<exists>y. root_of p j y \<and> x = (if y = b then a else y)"
    then obtain y where y: "root_of p j y" and x: "x = (if y = b then a else y)" by blast
    from y have "root_of (p[b := int a]) j (if y = b then a else y)"
    proof (induction rule: root_of.induct)
      case (root_here j)
      then show ?case using ba by (cases "j = b") (auto intro: root_of.root_here)
    next
      case (root_step j y)
      from root_step.hyps b have jb: "j \<noteq> b" by auto
      show ?case
      proof (rule root_of.root_step)
        show "root_of (p[b := int a]) (nat (p[b := int a] ! j)) (if y = b then a else y)"
          using root_step.IH jb by simp
      qed (use root_step.hyps jb in auto)
    qed
    with x show "root_of (p[b := int a]) j x" by simp
  }
  {
    assume "root_of (p[b := int a]) j x"
    then show "\<exists>y. root_of p j y \<and> x = (if y = b then a else y)"
    proof (induction rule: root_of.induct)
      case (root_here j)
      with b ab have jb: "j \<noteq> b" by auto
      with root_here have "root_of p j j" by (intro root_of.root_here) auto
      with jb show ?case by auto
    next
      case (root_step j x)
      show ?case
      proof (cases "j = b")
        case True
        with root_step.IH b have "\<exists>y. root_of p a y \<and> x = (if y = b then a else y)" by simp
        with a ab have "x = a" using root_of_root by auto
        moreover have "root_of p b b" using b by (intro root_of.root_here)
        ultimately show ?thesis using True by auto
      next
        case False
        with root_step.IH obtain y where
          y: "root_of p (nat (p ! j)) y" "x = (if y = b then a else y)" by auto
        from root_step.hyps False have "j < length p" "p ! j \<noteq> int j" "0 \<le> p ! j" by auto
        from this y(1) have "root_of p j y" by (rule root_of.root_step)
        with y(2) show ?thesis by blast
      qed
    qed
  }
qed

lemma link_inv_less:
  assumes inv: "dsu_inv s"
    and w: "w < length (parent s)" "parent s ! w = int w"
    and l: "l < length (parent s)" "parent s ! l = int l"
    and rk: "rank s ! l < rank s ! w"
  shows "dsu_inv (s\<lparr>parent := (parent s)[l := int w]\<rparr>)"
  unfolding dsu_inv_def
proof (intro conjI allI impI)
  let ?s = "s\<lparr>parent := (parent s)[l := int w]\<rparr>"
  fix j assume j: "j < length (parent ?s)"
  show "0 \<le> parent ?s ! j"
    using inv j by (cases "j = l") (auto simp: dsu_inv_def)
  show "parent ?s ! j < int (length (parent ?s))"
    using inv j w by (cases "j = l") (auto simp: dsu_inv_def)
  assume "parent ?s ! j \<noteq> int j"
  then show "rank ?s ! j < rank ?s ! nat (parent ?s ! j)"
    using inv j rk by (cases "j = l") (auto simp: dsu_inv_def)
qed (use inv in \<open>simp add: dsu_inv_def\<close>)

lemma link_inv_equal:
  assumes inv: "dsu_inv s"
    and w: "w < length (parent s)" "parent s ! w = int w"
    and l: "l < length (parent s)" "parent s ! l = int l"
    and wl: "w \<noteq> l"
    and rk: "rank s ! l = rank s ! w"
  shows "dsu_inv (s\<lparr>parent := (parent s)[l := int w], rank := (rank s)[w := rank s ! w + 1]\<rparr>)"
  unfolding dsu_inv_def
proof (intro conjI allI impI)
  let ?s = "s\<lparr>parent := (parent s)[l := int w], rank := (rank s)[w := rank s ! w + 1]\<rparr>"
  have len: "length (rank s) = length (parent s)" using inv by (simp add: dsu_inv_def)
  fix j assume j: "j < length (parent ?s)"
  show "0 \<le> parent ?s ! j"
    using inv j by (cases "j = l") (auto simp: dsu_inv_def)
  show "parent ?s ! j < int (length (parent ?s))"
    using inv j w by (cases "j = l") (auto simp: dsu_inv_def)
  assume ne: "parent ?s ! j \<noteq> int j"
  show "rank ?s ! j < rank ?s ! nat (parent ?s ! j)"
  proof (cases "j = l")
    case True
    with l w wl rk len show ?thesis by simp
  next
    case False
    with ne j have pj: "parent s ! j \<noteq> int j" by simp
    with w have jw: "j \<noteq> w" by auto
    from inv j pj have q: "nat (parent s ! j) < length (parent s)"
      "rank s ! j < rank s ! nat (parent s ! j)"
      by (auto simp: dsu_inv_def)
    show ?thesis
    proof (cases "nat (parent s ! j) = w")
      case True
      with q False jw w len show ?thesis by simp
    next
      case False
      with q \<open>j \<noteq> l\<close> jw len show ?thesis by simp
    qed
  qed
qed (use inv in \<open>simp add: dsu_inv_def\<close>)

lemma union_roots_spec:
  assumes inv: "dsu_inv s"
    and a: "a < length (parent s)" "parent s ! a = int a"
    and b: "b < length (parent s)" "parent s ! b = int b"
    and ab: "a \<noteq> b"
  shows "\<exists>s' w l. union_roots s (int a) (int b) = Inr s' \<and> dsu_inv s' \<and>
           parent s' = (parent s)[l := int w] \<and> (w = a \<and> l = b \<or> w = b \<and> l = a)"
proof -
  have len: "length (rank s) = length (parent s)" using inv by (simp add: dsu_inv_def)
  consider "rank s ! a < rank s ! b" | "rank s ! a > rank s ! b" | "rank s ! a = rank s ! b"
    by linarith
  then show ?thesis
  proof cases
    case 1
    then have "union_roots s (int a) (int b) = Inr (s\<lparr>parent := (parent s)[a := int b]\<rparr>)"
      using a b len by (simp add: union_roots_def)
    moreover have "dsu_inv (s\<lparr>parent := (parent s)[a := int b]\<rparr>)"
      using inv b a 1 by (rule link_inv_less)
    ultimately show ?thesis by auto
  next
    case 2
    then have "union_roots s (int a) (int b) = Inr (s\<lparr>parent := (parent s)[b := int a]\<rparr>)"
      using a b len by (simp add: union_roots_def)
    moreover have "dsu_inv (s\<lparr>parent := (parent s)[b := int a]\<rparr>)"
      using inv a b 2 by (rule link_inv_less)
    ultimately show ?thesis by auto
  next
    case 3
    then have "union_roots s (int a) (int b) =
        Inr (s\<lparr>parent := (parent s)[b := int a], rank := (rank s)[a := rank s ! a + 1]\<rparr>)"
      using a b len by (simp add: union_roots_def)
    moreover have "dsu_inv (s\<lparr>parent := (parent s)[b := int a],
        rank := (rank s)[a := rank s ! a + 1]\<rparr>)"
      using inv a b ab 3 [symmetric] by (rule link_inv_equal)
    ultimately show ?thesis by auto
  qed
qed

text \<open>What a call of union does to a valid state, in terms of roots.\<close>

lemma union_spec:
  assumes inv: "dsu_inv s"
    and ix: "py_index (parent s) x = Some kx" and iy: "py_index (parent s) y = Some ky"
  shows "\<exists>rx ry. root_of (parent s) kx rx \<and> root_of (parent s) ky ry \<and>
     (if rx = ry then
        \<exists>s'. union s x y = Some (Inr (s', False)) \<and> dsu_inv s' \<and> compressed s s'
      else
        \<exists>s' w l. union s x y = Some (Inr (s', True)) \<and> dsu_inv s' \<and>
          length (parent s') = length (parent s) \<and> (w = rx \<and> l = ry \<or> w = ry \<and> l = rx) \<and>
          (\<forall>j z. root_of (parent s') j z \<longleftrightarrow>
             (\<exists>u. root_of (parent s) j u \<and> z = (if u = l then w else u))))"
proof -
  from find_spec [OF inv ix] obtain s1 rx where s1:
    "find s x = Some (Inr (s1, int rx))" "root_of (parent s) kx rx" "dsu_inv s1" "compressed s s1"
    by blast
  have iy1: "py_index (parent s1) y = Some ky"
    using iy s1(4) by (simp add: py_index_def compressed_def)
  from find_spec [OF s1(3) iy1] obtain s2 ry where s2:
    "find s1 y = Some (Inr (s2, int ry))" "root_of (parent s1) ky ry" "dsu_inv s2"
    "compressed s1 s2"
    by blast
  have c2: "compressed s s2" using s1(4) s2(4) by (rule compressed_trans)
  have ry: "root_of (parent s) ky ry" using s2(2) s1(4) by (simp add: compressed_def)
  have len2: "length (parent s2) = length (parent s)" using c2 by (simp add: compressed_def)
  have eq2: "\<And>j z. root_of (parent s2) j z \<longleftrightarrow> root_of (parent s) j z"
    using c2 by (simp add: compressed_def)
  show ?thesis
  proof (cases "rx = ry")
    case True
    then have "union s x y = Some (Inr (s2, False))"
      using s1(1) s2(1) by (simp add: union_def)
    with True s1(2) ry s2(3) c2 show ?thesis by auto
  next
    case False
    have "root_of (parent s) rx rx" "root_of (parent s) ry ry"
      using root_of_bound [OF s1(2)] root_of_bound [OF ry] by (auto intro: root_here)
    then have "root_of (parent s2) rx rx" "root_of (parent s2) ry ry"
      by (simp_all add: eq2)
    then have rb: "rx < length (parent s2)" "parent s2 ! rx = int rx"
      "ry < length (parent s2)" "parent s2 ! ry = int ry"
      using root_of_bound by blast+
    from union_roots_spec [OF s2(3) rb False] obtain s' w l where s':
      "union_roots s2 (int rx) (int ry) = Inr s'" "dsu_inv s'"
      "parent s' = (parent s2)[l := int w]" "w = rx \<and> l = ry \<or> w = ry \<and> l = rx"
      by blast
    have "union s x y = Some (Inr (s', True))"
      using s1(1) s2(1) False s'(1) by (simp add: union_def)
    moreover have "length (parent s') = length (parent s)" using s'(3) len2 by simp
    moreover have "\<forall>j z. root_of (parent s') j z \<longleftrightarrow>
             (\<exists>u. root_of (parent s) j u \<and> z = (if u = l then w else u))"
    proof -
      have wl: "w < length (parent s2)" "parent s2 ! w = int w"
        "l < length (parent s2)" "parent s2 ! l = int l" "w \<noteq> l"
        using s'(4) rb False by auto
      show ?thesis
        unfolding s'(3) link_root_of [OF wl] eq2 by simp
    qed
    ultimately show ?thesis using s1(2) ry False s'(2,4) by auto
  qed
qed

lemma union_error:
  assumes inv: "dsu_inv s"
    and bad: "py_index (parent s) x = None \<or> py_index (parent s) y = None"
  shows "union s x y = Some (Inl IndexError)"
proof (cases "py_index (parent s) x")
  case None
  then show ?thesis by (simp add: union_def find_error)
next
  case (Some kx)
  with bad have y: "py_index (parent s) y = None" by simp
  from find_spec [OF inv Some] obtain s1 rx where s1:
    "find s x = Some (Inr (s1, int rx))" "compressed s s1"
    by blast
  have "py_index (parent s1) y = None"
    using y s1(2) by (simp add: py_index_def compressed_def)
  then show ?thesis using s1(1) by (simp add: union_def find_error)
qed

subsection \<open>Reachable states\<close>

lemma create_inv: "dsu_inv (create n)"
  by (auto simp: dsu_inv_def create_def)

lemma find_inv:
  assumes "dsu_inv s" and "find s i = Some (Inr (s', r))"
  shows "dsu_inv s' \<and> compressed s s'"
proof (cases "py_index (parent s) i")
  case None
  with assms(2) show ?thesis by (simp add: find_error)
next
  case (Some k)
  from find_spec [OF assms(1) Some] assms(2) show ?thesis by auto
qed

lemma union_inv:
  assumes "dsu_inv s" and "union s x y = Some (Inr (s', b))"
  shows "dsu_inv s' \<and> length (parent s') = length (parent s)"
proof (cases "py_index (parent s) x = None \<or> py_index (parent s) y = None")
  case True
  from union_error [OF assms(1) True] assms(2) show ?thesis by simp
next
  case False
  then obtain kx ky where "py_index (parent s) x = Some kx" "py_index (parent s) y = Some ky"
    by auto
  from union_spec [OF assms(1) this] assms(2) show ?thesis
    by (auto simp: compressed_def split: if_splits)
qed

lemma reachable_inv: "reachable s \<Longrightarrow> dsu_inv s"
  by (induction rule: reachable.induct) (auto simp: create_inv dest: find_inv union_inv)

lemma find_root_iff:
  assumes "dsu_inv s" and "py_index (parent s) i = Some k"
  shows "(\<exists>t. find s i = Some (Inr (t, r))) \<longleftrightarrow> 0 \<le> r \<and> root_of (parent s) k (nat r)"
proof -
  from find_spec [OF assms] obtain s' r' where
    r': "find s i = Some (Inr (s', int r'))" "root_of (parent s) k r'" by blast
  show ?thesis
  proof
    assume "\<exists>t. find s i = Some (Inr (t, r))"
    with r' show "0 \<le> r \<and> root_of (parent s) k (nat r)" by auto
  next
    assume "0 \<le> r \<and> root_of (parent s) k (nat r)"
    with r'(2) have "r = int r'" using root_of_unique by fastforce
    with r'(1) show "\<exists>t. find s i = Some (Inr (t, r))" by blast
  qed
qed

lemma compressed_root_of:
  "compressed s s' \<Longrightarrow> root_of (parent s') j x \<longleftrightarrow> root_of (parent s) j x"
  by (simp add: compressed_def)

lemma compressed_length: "compressed s s' \<Longrightarrow> length (parent s') = length (parent s)"
  by (simp add: compressed_def)

lemma find_returns_root:
  assumes "dsu_inv s" and "py_index (parent s) i = Some k"
    and "find s i = Some (Inr (t, r))" and "root_of (parent s) k r'"
  shows "r = int r'"
proof -
  from find_root_iff [OF assms(1,2), of r] assms(3)
  have "0 \<le> r" "root_of (parent s) k (nat r)" by blast+
  from root_of_unique [OF this(2) assms(4)] this(1) show ?thesis by simp
qed

lemma find_twice:
  assumes inv: "dsu_inv s" and k: "k < length (parent s)"
  shows "\<exists>s' r. find s (int k) = Some (Inr (s', int r)) \<and> root_of (parent s) k r \<and>
           find s' (int k) = Some (Inr (s', int r))"
proof -
  from root_exists [OF inv k] obtain r where kr: "root_of (parent s) k r" ..
  from find_canonical [OF inv kr] obtain s' where s':
    "find s (int k) = Some (Inr (s', int r))" "dsu_inv s'" "compressed s s'"
    "k \<noteq> r \<longrightarrow> parent s' ! k = int r" "k = r \<longrightarrow> s' = s"
    by blast
  have len: "length (parent s') = length (parent s)" using s'(3) by (simp add: compressed_def)
  have "find s' (int k) = Some (Inr (s', int r))"
  proof (cases "k = r")
    case True
    with s' show ?thesis by simp
  next
    case False
    with s'(4) have pk: "parent s' ! k = int r" by simp
    have "root_of (parent s') r r"
      using root_of_bound [OF kr] s'(3) by (auto simp: compressed_def intro: root_here)
    then have r: "r < length (parent s')" "parent s' ! r = int r"
      using root_of_bound by blast+
    then have "find s' (int r) = Some (Inr (s', int r))"
      by (subst find.simps) simp
    moreover have "(parent s')[k := int r] = parent s'"
      using pk by (metis list_update_id)
    ultimately show ?thesis
      using k len pk False by (subst find.simps) simp
  qed
  with s'(1) kr show ?thesis by blast
qed

subsection \<open>Claims about the Disjoint Set Union\<close>

text \<open>
  Claim C6. In every state reachable from \<open>create n\<close> by calls of \<open>find\<close> and \<open>union\<close>,
  and for every valid index \<open>i\<close> (\<open>0 \<le> i < n\<close>), the call \<open>find i\<close> returns: the parent chain
  from \<open>i\<close> ends at a root, which is the value returned. A second \<open>find i\<close> right after
  returns the same root, and leaves the object as the first call left it.
\<close>

theorem find_terminates_and_repeats:
  assumes "reachable s" and "0 \<le> i" and "i < int (length (parent s))"
  shows "\<exists>s' r. find s i = Some (Inr (s', r)) \<and> root_of (parent s) (nat i) (nat r) \<and>
           find s' i = Some (Inr (s', r))"
proof -
  from assms(2,3) have k: "nat i < length (parent s)" by simp
  from find_twice [OF reachable_inv [OF assms(1)] k] assms(2) show ?thesis
    by (metis int_nat_eq nat_int)
qed

theorem find_terminates_and_repeats_witness:
  "reachable (create 3) \<and> (0::int) \<le> 2 \<and> 2 < int (length (parent (create 3))) \<and>
   (\<exists>s' r. find (create 3) 2 = Some (Inr (s', r)) \<and>
      root_of (parent (create 3)) (nat 2) (nat r) \<and> find s' 2 = Some (Inr (s', r)))"
proof -
  have 1: "reachable (create 3)" by (rule reach_create)
  have 2: "(2::int) < int (length (parent (create 3)))" by (simp add: create_def)
  from find_terminates_and_repeats [OF 1 _ 2] 1 2 show ?thesis by simp
qed

text \<open>
  Claim C3. In every reachable state and for valid indices \<open>a\<close> and \<open>b\<close>: when
  \<open>find a\<close> and then \<open>find b\<close> return different roots, \<open>union a b\<close> returns \<open>True\<close>, and
  afterwards \<open>find a\<close> and then \<open>find b\<close> return the same root.
\<close>

theorem union_merges:
  assumes "reachable s"
    and "0 \<le> a" "a < int (length (parent s))" and "0 \<le> b" "b < int (length (parent s))"
    and "find s a = Some (Inr (s1, ra))" and "find s1 b = Some (Inr (s2, rb))"
    and "ra \<noteq> rb"
  shows "\<exists>s'. union s a b = Some (Inr (s', True)) \<and>
           (\<exists>t1 t2 r. find s' a = Some (Inr (t1, r)) \<and> find t1 b = Some (Inr (t2, r)))"
proof -
  have inv: "dsu_inv s" using assms(1) by (rule reachable_inv)
  have ia: "py_index (parent s) a = Some (nat a)" and ib: "py_index (parent s) b = Some (nat b)"
    using assms(2-5) by (simp_all add: py_index_def)
  from union_spec [OF inv ia ib] obtain rx ry where roots:
    "root_of (parent s) (nat a) rx" "root_of (parent s) (nat b) ry"
    and u: "if rx = ry then
        \<exists>s'. union s a b = Some (Inr (s', False)) \<and> dsu_inv s' \<and> compressed s s'
      else
        \<exists>s' w l. union s a b = Some (Inr (s', True)) \<and> dsu_inv s' \<and>
          length (parent s') = length (parent s) \<and> (w = rx \<and> l = ry \<or> w = ry \<and> l = rx) \<and>
          (\<forall>j z. root_of (parent s') j z \<longleftrightarrow>
             (\<exists>u. root_of (parent s) j u \<and> z = (if u = l then w else u)))"
    by blast
  have ra: "ra = int rx"
    using inv ia assms(6) roots(1) by (rule find_returns_root)
  from find_inv [OF inv assms(6)] have inv1: "dsu_inv s1" and c1: "compressed s s1" by auto
  have ib1: "py_index (parent s1) b = Some (nat b)"
    using ib compressed_length [OF c1] by (simp add: py_index_def)
  have "root_of (parent s1) (nat b) ry"
    using roots(2) compressed_root_of [OF c1] by simp
  with inv1 ib1 assms(7) have rb: "rb = int ry" by (rule find_returns_root)
  from ra rb assms(8) have "rx \<noteq> ry" by auto
  with u obtain s' w l where s': "union s a b = Some (Inr (s', True))" "dsu_inv s'"
    "length (parent s') = length (parent s)" "w = rx \<and> l = ry \<or> w = ry \<and> l = rx"
    "\<And>j z. root_of (parent s') j z \<longleftrightarrow>
             (\<exists>u. root_of (parent s) j u \<and> z = (if u = l then w else u))"
    by auto
  have "root_of (parent s) (nat a) rx \<and> w = (if rx = l then w else rx)"
    using roots(1) s'(4) by auto
  then have wa: "root_of (parent s') (nat a) w"
    unfolding s'(5) by (rule exI)
  have "root_of (parent s) (nat b) ry \<and> w = (if ry = l then w else ry)"
    using roots(2) s'(4) by auto
  then have wb: "root_of (parent s') (nat b) w"
    unfolding s'(5) by (rule exI)
  have ia': "py_index (parent s') a = Some (nat a)"
    using ia s'(3) by (simp add: py_index_def)
  from find_spec [OF s'(2) ia'] wa obtain t1 where t1:
    "find s' a = Some (Inr (t1, int w))" "dsu_inv t1" "compressed s' t1"
    using root_of_unique by blast
  have ib': "py_index (parent t1) b = Some (nat b)"
    using ib s'(3) compressed_length [OF t1(3)] by (simp add: py_index_def)
  have "root_of (parent t1) (nat b) w" using wb compressed_root_of [OF t1(3)] by simp
  with find_spec [OF t1(2) ib'] obtain t2 where "find t1 b = Some (Inr (t2, int w))"
    using root_of_unique by blast
  with s'(1) t1(1) show ?thesis by blast
qed

lemma create_3: "create 3 = \<lparr>parent = [0, 1, 2], rank = [1, 1, 1]\<rparr>"
  by code_simp

theorem union_merges_witness:
  "reachable (create 3) \<and> (0::int) \<le> 0 \<and> 0 < int (length (parent (create 3))) \<and>
   (0::int) \<le> 1 \<and> 1 < int (length (parent (create 3))) \<and>
   find (create 3) 0 = Some (Inr (create 3, 0)) \<and>
   find (create 3) 1 = Some (Inr (create 3, 1)) \<and> (0::int) \<noteq> 1 \<and>
   (\<exists>s'. union (create 3) 0 1 = Some (Inr (s', True)) \<and>
      (\<exists>t1 t2 r. find s' 0 = Some (Inr (t1, r)) \<and> find t1 1 = Some (Inr (t2, r))))"
proof -
  have 1: "reachable (create 3)" by (rule reach_create)
  have 2: "(0::int) < int (length (parent (create 3)))" "(1::int) < int (length (parent (create 3)))"
    by (simp_all add: create_3)
  have 3: "find (create 3) 0 = Some (Inr (create 3, 0))"
    unfolding create_3 by code_simp
  have 4: "find (create 3) 1 = Some (Inr (create 3, 1))"
    unfolding create_3 by code_simp
  from union_merges [OF 1 _ 2(1) _ 2(2) 3 4] 1 2 3 4 show ?thesis by simp
qed

text \<open>
  Claim C4 says that \<open>union x y\<close> on two members of one set returns \<open>False\<close> and leaves
  the parent array and the rank array as they were. The result and the rank array are as
  claimed, but \<open>union\<close> calls \<open>find\<close>, and \<open>find\<close> compresses the path it walks. In the state
  below, reached by \<open>union 0 1\<close>, \<open>union 2 3\<close>, \<open>union 1 3\<close> on \<open>create 4\<close>, vertex 3 hangs
  two steps below its root 0, and \<open>union 3 0\<close> rewrites its parent pointer.
\<close>

theorem union_same_set_counterexample:
  "reachable \<lparr>parent = [0, 0, 0, 2], rank = [3, 1, 2, 1]\<rparr> \<and>
   find \<lparr>parent = [0, 0, 0, 2], rank = [3, 1, 2, 1]\<rparr> 3 =
     Some (Inr (\<lparr>parent = [0, 0, 0, 0], rank = [3, 1, 2, 1]\<rparr>, 0)) \<and>
   find \<lparr>parent = [0, 0, 0, 0], rank = [3, 1, 2, 1]\<rparr> 0 =
     Some (Inr (\<lparr>parent = [0, 0, 0, 0], rank = [3, 1, 2, 1]\<rparr>, 0)) \<and>
   union \<lparr>parent = [0, 0, 0, 2], rank = [3, 1, 2, 1]\<rparr> 3 0 =
     Some (Inr (\<lparr>parent = [0, 0, 0, 0], rank = [3, 1, 2, 1]\<rparr>, False)) \<and>
   parent \<lparr>parent = [0, 0, 0, 0], rank = [3, 1, 2, 1]\<rparr> \<noteq>
   parent \<lparr>parent = [0, 0, 0, 2], rank = [3, 1, 2, 1]\<rparr>"
proof -
  have c: "create 4 = \<lparr>parent = [0, 1, 2, 3], rank = [1, 1, 1, 1]\<rparr>"
    by code_simp
  have u1: "union \<lparr>parent = [0, 1, 2, 3], rank = [1, 1, 1, 1]\<rparr> 0 1 =
      Some (Inr (\<lparr>parent = [0, 0, 2, 3], rank = [2, 1, 1, 1]\<rparr>, True))"
    by code_simp
  have u2: "union \<lparr>parent = [0, 0, 2, 3], rank = [2, 1, 1, 1]\<rparr> 2 3 =
      Some (Inr (\<lparr>parent = [0, 0, 2, 2], rank = [2, 1, 2, 1]\<rparr>, True))"
    by code_simp
  have u3: "union \<lparr>parent = [0, 0, 2, 2], rank = [2, 1, 2, 1]\<rparr> 1 3 =
      Some (Inr (\<lparr>parent = [0, 0, 0, 2], rank = [3, 1, 2, 1]\<rparr>, True))"
    by code_simp
  have "reachable \<lparr>parent = [0, 1, 2, 3], rank = [1, 1, 1, 1]\<rparr>"
    using reach_create [of 4] by (simp only: c)
  from reach_union [OF reach_union [OF reach_union [OF this u1] u2] u3]
  have r: "reachable \<lparr>parent = [0, 0, 0, 2], rank = [3, 1, 2, 1]\<rparr>" .
  have f1: "find \<lparr>parent = [0, 0, 0, 2], rank = [3, 1, 2, 1]\<rparr> 3 =
     Some (Inr (\<lparr>parent = [0, 0, 0, 0], rank = [3, 1, 2, 1]\<rparr>, 0))"
    by code_simp
  have f2: "find \<lparr>parent = [0, 0, 0, 0], rank = [3, 1, 2, 1]\<rparr> 0 =
     Some (Inr (\<lparr>parent = [0, 0, 0, 0], rank = [3, 1, 2, 1]\<rparr>, 0))"
    by code_simp
  have u: "union \<lparr>parent = [0, 0, 0, 2], rank = [3, 1, 2, 1]\<rparr> 3 0 =
     Some (Inr (\<lparr>parent = [0, 0, 0, 0], rank = [3, 1, 2, 1]\<rparr>, False))"
    by code_simp
  from r f1 f2 u show ?thesis by simp
qed

text \<open>
  Claim C4, amended. In every reachable state and for valid indices \<open>x\<close> and \<open>y\<close> whose
  roots are equal, \<open>union x y\<close> returns \<open>False\<close> and leaves the rank array unchanged. The
  parent array keeps its length, every vertex keeps its root, and a parent pointer that
  changed points at the root of its vertex (path compression).
\<close>

theorem union_same_set:
  assumes "reachable s"
    and "0 \<le> x" "x < int (length (parent s))" and "0 \<le> y" "y < int (length (parent s))"
    and "find s x = Some (Inr (s1, r))" and "find s1 y = Some (Inr (s2, r))"
  shows "union s x y = Some (Inr (s2, False)) \<and> rank s2 = rank s \<and>
         length (parent s2) = length (parent s) \<and>
         (\<forall>j < length (parent s).
            parent s2 ! j = parent s ! j \<or> root_of (parent s) j (nat (parent s2 ! j))) \<and>
         (\<forall>j q. root_of (parent s2) j q \<longleftrightarrow> root_of (parent s) j q)"
proof -
  have inv: "dsu_inv s" using assms(1) by (rule reachable_inv)
  from find_inv [OF inv assms(6)] have inv1: "dsu_inv s1" and c1: "compressed s s1" by auto
  from find_inv [OF inv1 assms(7)] have c2: "compressed s1 s2" by simp
  have "compressed s s2" using c1 c2 by (rule compressed_trans)
  moreover have "union s x y = Some (Inr (s2, False))"
    using assms(6,7) by (simp add: union_def)
  ultimately show ?thesis by (simp add: compressed_def)
qed

theorem union_same_set_witness:
  "reachable \<lparr>parent = [0, 0, 0, 2], rank = [3, 1, 2, 1]\<rparr> \<and>
   (0::int) \<le> 3 \<and> 3 < int (length (parent \<lparr>parent = [0, 0, 0, 2], rank = [3, 1, 2, 1]\<rparr>)) \<and>
   (0::int) \<le> 0 \<and> 0 < int (length (parent \<lparr>parent = [0, 0, 0, 2], rank = [3, 1, 2, 1]\<rparr>)) \<and>
   union \<lparr>parent = [0, 0, 0, 2], rank = [3, 1, 2, 1]\<rparr> 3 0 =
     Some (Inr (\<lparr>parent = [0, 0, 0, 0], rank = [3, 1, 2, 1]\<rparr>, False)) \<and>
   (\<forall>j q. root_of [0, 0, 0, 0] j q \<longleftrightarrow> root_of [0, 0, 0, 2] j q)"
proof -
  let ?s = "\<lparr>parent = [0, 0, 0, 2], rank = [3, 1, 2, 1]\<rparr>"
  let ?t = "\<lparr>parent = [0, 0, 0, 0], rank = [3, 1, 2, 1]\<rparr>"
  have c: "create 4 = \<lparr>parent = [0, 1, 2, 3], rank = [1, 1, 1, 1]\<rparr>"
    by code_simp
  have u1: "union \<lparr>parent = [0, 1, 2, 3], rank = [1, 1, 1, 1]\<rparr> 0 1 =
      Some (Inr (\<lparr>parent = [0, 0, 2, 3], rank = [2, 1, 1, 1]\<rparr>, True))"
    by code_simp
  have u2: "union \<lparr>parent = [0, 0, 2, 3], rank = [2, 1, 1, 1]\<rparr> 2 3 =
      Some (Inr (\<lparr>parent = [0, 0, 2, 2], rank = [2, 1, 2, 1]\<rparr>, True))"
    by code_simp
  have u3: "union \<lparr>parent = [0, 0, 2, 2], rank = [2, 1, 2, 1]\<rparr> 1 3 = Some (Inr (?s, True))"
    by code_simp
  have "reachable \<lparr>parent = [0, 1, 2, 3], rank = [1, 1, 1, 1]\<rparr>"
    using reach_create [of 4] by (simp only: c)
  from reach_union [OF reach_union [OF reach_union [OF this u1] u2] u3]
  have r: "reachable ?s" .
  have f1: "find ?s 3 = Some (Inr (?t, 0))" by code_simp
  have f2: "find ?t 0 = Some (Inr (?t, 0))" by code_simp
  have b: "(3::int) < int (length (parent ?s))" "(0::int) < int (length (parent ?s))"
    by simp_all
  from union_same_set [OF r _ b(1) _ b(2) f1 f2] r show ?thesis by simp
qed

text \<open>
  Claim C5 says that creating a DSU of negative size fails with an invalid-argument error.
  The constructor has no check: \<open>range(n)\<close> and \<open>[1] * n\<close> are empty for negative \<open>n\<close>, so
  the call returns a DSU with no elements.
\<close>

theorem create_negative_counterexample:
  "create (- 1) = \<lparr>parent = [], rank = []\<rparr> \<and> reachable \<lparr>parent = [], rank = []\<rparr>"
proof -
  have c: "create (- 1) = \<lparr>parent = [], rank = []\<rparr>" by (simp add: create_def)
  with reach_create [of "- 1"] show ?thesis by simp
qed

text \<open>
  Claim C5, amended. For every \<open>n < 0\<close>, \<open>create n\<close> returns the DSU over no elements (both
  arrays empty); every later \<open>find\<close> or \<open>union\<close> on it raises IndexError.
\<close>

theorem create_negative:
  assumes "n < 0"
  shows "create n = \<lparr>parent = [], rank = []\<rparr> \<and>
         find (create n) i = Some (Inl IndexError) \<and>
         union (create n) x y = Some (Inl IndexError)"
proof -
  have c: "create n = \<lparr>parent = [], rank = []\<rparr>" using assms by (simp add: create_def)
  have "py_index (parent (create n)) j = None" for j
    by (simp add: c py_index_def)
  then show ?thesis using c by (simp add: union_def find_error)
qed

theorem create_negative_witness:
  "(- 1 :: int) < 0 \<and> create (- 1) = \<lparr>parent = [], rank = []\<rparr> \<and>
   find (create (- 1)) 0 = Some (Inl IndexError) \<and>
   union (create (- 1)) 0 1 = Some (Inl IndexError)"
proof -
  have "(- 1 :: int) < 0" by simp
  from this create_negative [OF this, of 0 0 1] show ?thesis by blast
qed

section \<open>The concrete scenario\<close>

text \<open>
  Claim C2. On the graph with vertices 0..3 and edges (0,1,1), (1,2,2), (2,3,3), (0,3,10),
  (0,2,4), Kruskal's algorithm returns cost 6 with the edges (0,1,1), (1,2,2), (2,3,3), and
  so does Prim's algorithm on the adjacency list built from the same rows.
\<close>

theorem concrete_scenario:
  "kruskals_mst 4 [(0, 1, 1), (1, 2, 2), (2, 3, 3), (0, 3, 10), (0, 2, 4)] =
     Some (Inr (6, [(0, 1, 1), (1, 2, 2), (2, 3, 3)])) \<and>
   (case build_graph 4 [(0, 1, 1), (1, 2, 2), (2, 3, 3), (0, 3, 10), (0, 2, 4)] of
      Inl e \<Rightarrow> False
    | Inr (el, adj) \<Rightarrow>
        el = [(0, 1, 1), (1, 2, 2), (2, 3, 3), (0, 3, 10), (0, 2, 4)] \<and>
        prims_mst 4 adj = (6, [(0, 1, 1), (1, 2, 2), (2, 3, 3)]))"
  by code_simp

section \<open>Remapping\<close>

text \<open>
  The dictionary built by the second script is a bijection from the identifiers onto
  \<open>0 .. V - 1\<close>, whatever the enumeration order.
\<close>

lemma map_id_to_idx_Some:
  assumes "distinct ids" and "k < length ids"
  shows "map_id_to_idx ids (ids ! k) = Some (int k)"
proof -
  have "map_of (zip ids (map int [0..<length ids])) (ids ! k) = Some (map int [0..<length ids] ! k)"
    using assms by (intro map_of_zip_nth) auto
  with assms(2) show ?thesis by (simp add: map_id_to_idx_def)
qed

lemma map_id_to_idx_bij:
  assumes "distinct ids"
  shows "bij_betw (\<lambda>x. the (map_id_to_idx ids x)) (set ids) {0..<int (length ids)}"
proof (rule bij_betwI')
  fix x y assume "x \<in> set ids" "y \<in> set ids"
  then obtain i j where ij: "i < length ids" "x = ids ! i" "j < length ids" "y = ids ! j"
    by (auto simp: in_set_conv_nth)
  with assms show "(the (map_id_to_idx ids x) = the (map_id_to_idx ids y)) = (x = y)"
    by (auto simp: map_id_to_idx_Some nth_eq_iff_index_eq)
next
  fix x assume "x \<in> set ids"
  then obtain i where "i < length ids" "x = ids ! i" by (auto simp: in_set_conv_nth)
  with assms show "the (map_id_to_idx ids x) \<in> {0..<int (length ids)}"
    by (simp add: map_id_to_idx_Some)
next
  fix y assume "y \<in> {0..<int (length ids)}"
  then have "nat y < length ids" "int (nat y) = y" by auto
  with assms have "ids ! nat y \<in> set ids \<and> y = the (map_id_to_idx ids (ids ! nat y))"
    by (simp add: map_id_to_idx_Some)
  then show "\<exists>x\<in>set ids. y = the (map_id_to_idx ids x)" by blast
qed

text \<open>
  Claim C8 (the remapper maps the distinct identifiers of any input, sparse ones included,
  bijectively onto \<open>0 .. V - 1\<close>) holds for the dictionary above and fails for the offset of
  the first script. For the single row \<open>1 5\<close> there are two identifiers, the offset is 1,
  the row becomes \<open>0 4\<close>, and 4 is not below 2: Kruskal's algorithm, run on 2 vertices as the
  script does, raises IndexError.
\<close>

theorem offset_remap_sparse:
  "all_node_ids_in_file [(1, 5)] = [1, 5] \<and>
   id_offset [(1, 5)] = 1 \<and>
   remap_rows [(1, 5)] = [(0, 4)] \<and>
   \<not> (4 < int (length (all_node_ids_in_file [(1, 5)]))) \<and>
   kruskals_mst_index 2 [(0, 4, 7)] = Some (Inl IndexError)"
  by code_simp

section \<open>The engines leave their input alone\<close>

lemma kruskal_loop_edge_list:
  "kruskal_loop n xs st = Some (Inr st') \<Longrightarrow> edge_list st' = edge_list st"
proof (induction xs arbitrary: st)
  case Nil
  then show ?case by simp
next
  case (Cons x xs)
  obtain node1 node2 weight where x: "x = (node1, node2, weight)" by (cases x)
  from Cons.prems show ?case
    unfolding x
    by (auto split: Option.bind_splits sum.splits if_splits simp: Let_def
        dest!: Cons.IH)
qed

lemma kruskal_loop_index_edge_list:
  "kruskal_loop_index n xs (el, d, c, k) = Some (Inr (el', d', c', k')) \<Longrightarrow> el' = el"
proof (induction xs arbitrary: d c k)
  case Nil
  then show ?case by simp
next
  case (Cons x xs)
  obtain node1 node2 weight where x: "x = (node1, node2, weight)" by (cases x)
  from Cons.prems show ?case
    unfolding x
    by (auto split: Option.bind_splits sum.splits if_splits dest!: Cons.IH)
qed

lemma prim_loop_stop:
  "\<not> (min_heap st \<noteq> [] \<and> int (fcard (visited st)) < n) \<Longrightarrow> prim_loop n st = st"
  by (subst prim_loop.simps) auto

lemma prim_loop_visit:
  assumes "min_heap st \<noteq> []" "int (fcard (visited st)) < n"
    and "heappop (min_heap st) = ((weight, u, v), h)" and "v |\<notin>| visited st"
  shows "prim_loop n st =
     prim_loop n (st\<lparr>visited := finsert v (visited st),
                     mst_cost := mst_cost st + weight,
                     mst_edges := mst_edges st @ [(u, v, weight)],
                     min_heap := push_neighbors v (finsert v (visited st))
                                   (adj_get (adj_list st) v) h\<rparr>)"
  using assms by (subst prim_loop.simps) simp

lemma prim_loop_skip:
  assumes "min_heap st \<noteq> []" "int (fcard (visited st)) < n"
    and "heappop (min_heap st) = ((weight, u, v), h)" and "v |\<in>| visited st"
  shows "prim_loop n st = prim_loop n (st\<lparr>min_heap := h\<rparr>)"
  using assms by (subst prim_loop.simps) simp

text \<open>Induction along the loop, for a property \<open>P\<close> of the state before and after.\<close>

lemma prim_loop_induct [consumes 0, case_names stop visit skip]:
  assumes stop: "\<And>st. \<not> (min_heap st \<noteq> [] \<and> int (fcard (visited st)) < n) \<Longrightarrow> P st st"
    and visit: "\<And>st weight u v h st'.
       min_heap st \<noteq> [] \<Longrightarrow> int (fcard (visited st)) < n \<Longrightarrow>
       heappop (min_heap st) = ((weight, u, v), h) \<Longrightarrow> v |\<notin>| visited st \<Longrightarrow>
       st' = st\<lparr>visited := finsert v (visited st),
                     mst_cost := mst_cost st + weight,
                     mst_edges := mst_edges st @ [(u, v, weight)],
                     min_heap := push_neighbors v (finsert v (visited st))
                                   (adj_get (adj_list st) v) h\<rparr> \<Longrightarrow>
       P st' (prim_loop n st') \<Longrightarrow> P st (prim_loop n st')"
    and skip: "\<And>st weight u v h.
       min_heap st \<noteq> [] \<Longrightarrow> int (fcard (visited st)) < n \<Longrightarrow>
       heappop (min_heap st) = ((weight, u, v), h) \<Longrightarrow> v |\<in>| visited st \<Longrightarrow>
       P (st\<lparr>min_heap := h\<rparr>) (prim_loop n (st\<lparr>min_heap := h\<rparr>)) \<Longrightarrow>
       P st (prim_loop n (st\<lparr>min_heap := h\<rparr>))"
  shows "P st (prim_loop n st)"
  using assms
proof (induction n st rule: prim_loop.induct)
  case (1 num_vertices st)
  note stop = "1.prems"(1) and visit = "1.prems"(2) and skip = "1.prems"(3)
  show ?case
  proof (cases "min_heap st \<noteq> [] \<and> int (fcard (visited st)) < num_vertices")
    case False
    with prim_loop_stop [OF False] stop [OF False] show ?thesis by simp
  next
    case True
    obtain weight u v h where pop: "heappop (min_heap st) = ((weight, u, v), h)"
      by (metis prod_cases3 surj_pair)
    show ?thesis
    proof (cases "v |\<notin>| visited st")
      case new: True
      from "1.IH"(1) [OF True pop [symmetric] refl refl new "1.prems"]
        visit [OF _ _ pop new refl] prim_loop_visit [OF _ _ pop new] True
      show ?thesis by simp
    next
      case old: False
      then have old': "v |\<in>| visited st" by simp
      from "1.IH"(2) [OF True pop [symmetric] refl refl old "1.prems"]
        skip [OF _ _ pop old'] prim_loop_skip [OF _ _ pop old'] True
      show ?thesis by simp
    qed
  qed
qed

lemma prim_loop_adj_list: "adj_list (prim_loop n st) = adj_list st"
  by (rule prim_loop_induct [where P = "\<lambda>st st'. adj_list st' = adj_list st"]) simp_all

text \<open>
  Claim C7. When a run of Kruskal's algorithm (either script) returns, the caller's edge
  list holds what it held before, in the same order; and the adjacency list is unchanged
  after a run of Prim's algorithm.
\<close>

theorem engines_keep_input:
  "(kruskals_run num_vertices es = Some (Inr st) \<longrightarrow> edge_list st = es) \<and>
   (kruskals_run_index num_vertices es = Some (Inr (el, d, c, k)) \<longrightarrow> el = es) \<and>
   adj_list (prims_run num_vertices adj) = adj"
proof (intro conjI impI)
  assume "kruskals_run num_vertices es = Some (Inr st)"
  then show "edge_list st = es"
    by (auto simp: kruskals_run_def dest: kruskal_loop_edge_list)
next
  assume "kruskals_run_index num_vertices es = Some (Inr (el, d, c, k))"
  then show "el = es"
    by (auto simp: kruskals_run_index_def dest: kruskal_loop_index_edge_list)
next
  show "adj_list (prims_run num_vertices adj) = adj"
    by (simp add: prims_run_def prim_loop_adj_list prims_init_def)
qed

theorem engines_keep_input_witness:
  "kruskals_run 2 [(0, 1, 5)] =
     Some (Inr \<lparr>mst_cost = 5, mst_edges = [(0, 1, 5)], edge_list = [(0, 1, 5)],
                dsu = \<lparr>parent = [0, 0], rank = [2, 1]\<rparr>\<rparr>) \<and>
   edge_list \<lparr>mst_cost = 5, mst_edges = [(0, 1, 5)], edge_list = [(0, 1, 5)],
              dsu = \<lparr>parent = [0, 0], rank = [2, 1]\<rparr>\<rparr> = [(0, 1, 5)] \<and>
   kruskals_run_index 2 [(0, 1, 5)] =
     Some (Inr ([(0, 1, 5)], \<lparr>parent = [0, 0], rank = [2, 1]\<rparr>, 5, 1)) \<and>
   adj_list (prims_run 2 [0 \<mapsto> [(1, 5)], 1 \<mapsto> [(0, 5)]]) = [0 \<mapsto> [(1, 5)], 1 \<mapsto> [(0, 5)]]"
proof -
  have 1: "kruskals_run 2 [(0, 1, 5)] =
     Some (Inr \<lparr>mst_cost = 5, mst_edges = [(0, 1, 5)], edge_list = [(0, 1, 5)],
                dsu = \<lparr>parent = [0, 0], rank = [2, 1]\<rparr>\<rparr>)"
    by code_simp
  have 2: "kruskals_run_index 2 [(0, 1, 5)] =
     Some (Inr ([(0, 1, 5)], \<lparr>parent = [0, 0], rank = [2, 1]\<rparr>, 5, 1))"
    by code_simp
  from engines_keep_input [of 2 "[(0, 1, 5)]" _ _ _ _ _ "[0 \<mapsto> [(1, 5)], 1 \<mapsto> [(0, 5)]]"] 1 2
  show ?thesis by simp
qed

section \<open>The forest grown by Prim's algorithm\<close>

lemma rooted_forest_append:
  "rooted_forest A (es @ [(u, v, w)]) \<longleftrightarrow>
     rooted_forest A es \<and> u \<in> A \<union> edge_dst ` set es \<and> v \<notin> A \<union> edge_dst ` set es"
proof (induction es arbitrary: A)
  case Nil
  show ?case by simp
next
  case (Cons e es)
  obtain a b c where e: "e = (a, b, c)" by (cases e)
  show ?case unfolding e by (auto simp: Cons.IH edge_dst_def)
qed

lemma rooted_forest_distinct:
  "rooted_forest A es \<Longrightarrow> distinct (map edge_dst es) \<and> edge_dst ` set es \<inter> A = {}"
proof (induction es arbitrary: A)
  case Nil
  show ?case by simp
next
  case (Cons e es)
  obtain a b c where e: "e = (a, b, c)" by (cases e)
  from Cons.prems have "b \<notin> A" "rooted_forest (insert b A) es" by (simp_all add: e)
  with Cons.IH [of "insert b A"] show ?case by (auto simp: e edge_dst_def)
qed

lemma heappop_set:
  assumes "h \<noteq> []" and "heappop h = (x, h')"
  shows "x \<in> set h" and "set h' \<subseteq> set h" and "\<forall>y \<in> set h. x \<le> y"
proof -
  from assms(2) have x: "x = Min (set h)" and h': "h' = remove1 x h"
    by (auto simp: heappop_def)
  from assms(1) show "x \<in> set h" unfolding x by (intro Min_in) auto
  show "set h' \<subseteq> set h" unfolding h' by (rule set_remove1_subset)
  show "\<forall>y \<in> set h. x \<le> y" unfolding x by simp
qed

lemma push_neighbors_set:
  "set (push_neighbors v vis ns h) =
     set h \<union> {(w, v, nb) | nb w. (nb, w) \<in> set ns \<and> nb |\<notin>| vis}"
proof (induction ns arbitrary: h)
  case Nil
  show ?case by simp
next
  case (Cons n ns)
  obtain nb w where n: "n = (nb, w)" by (cases n)
  show ?case unfolding n by (auto simp: Cons.IH heappush_def)
qed

lemma push_start_set:
  "set (push_start s ns h) = set h \<union> {(w, s, nb) | nb w. (nb, w) \<in> set ns}"
proof (induction ns arbitrary: h)
  case Nil
  show ?case by simp
next
  case (Cons n ns)
  obtain nb w where n: "n = (nb, w)" by (cases n)
  show ?case unfolding n by (auto simp: Cons.IH heappush_def)
qed

lemma prim_inv_init: "prim_inv (prims_init adj)"
  by (auto simp: prim_inv_def prims_init_def push_start_set)

lemma prim_inv_visit:
  assumes inv: "prim_inv st" and ne: "min_heap st \<noteq> []"
    and pop: "heappop (min_heap st) = ((weight, u, v), h)" and new: "v |\<notin>| visited st"
  shows "prim_inv (st\<lparr>visited := finsert v (visited st),
                     mst_cost := mst_cost st + weight,
                     mst_edges := mst_edges st @ [(u, v, weight)],
                     min_heap := push_neighbors v (finsert v (visited st))
                                   (adj_get (adj_list st) v) h\<rparr>)"
proof -
  from heappop_set [OF ne pop] have mem: "(weight, u, v) \<in> set (min_heap st)"
    and sub: "set h \<subseteq> set (min_heap st)" by auto
  from inv mem have u: "u |\<in>| visited st" by (fastforce simp: prim_inv_def)
  from inv have vis: "fset (visited st) = insert 0 (edge_dst ` set (mst_edges st))"
    by (simp add: prim_inv_def)
  from u vis have u': "u \<in> {0} \<union> edge_dst ` set (mst_edges st)" by auto
  from new vis have v': "v \<notin> {0} \<union> edge_dst ` set (mst_edges st)" by auto
  have heap: "\<forall>x \<in> set h. fst (snd x) |\<in>| visited st"
    using inv sub by (auto simp: prim_inv_def)
  show ?thesis
    unfolding prim_inv_def
  proof (intro conjI)
    show "rooted_forest {0} (mst_edges (st\<lparr>visited := finsert v (visited st),
                     mst_cost := mst_cost st + weight,
                     mst_edges := mst_edges st @ [(u, v, weight)],
                     min_heap := push_neighbors v (finsert v (visited st))
                                   (adj_get (adj_list st) v) h\<rparr>))"
      using inv u' v' by (simp add: rooted_forest_append prim_inv_def)
  qed (use inv vis heap in \<open>auto simp: prim_inv_def push_neighbors_set edge_dst_def edge_weight_def\<close>)
qed

lemma prim_inv_skip:
  assumes inv: "prim_inv st" and ne: "min_heap st \<noteq> []"
    and pop: "heappop (min_heap st) = (x, h)"
  shows "prim_inv (st\<lparr>min_heap := h\<rparr>)"
  using inv heappop_set(2) [OF ne pop] by (auto simp: prim_inv_def)

lemma prim_loop_inv: "prim_inv st \<longrightarrow> prim_inv (prim_loop n st)"
proof (induction rule: prim_loop_induct)
  case (stop st)
  show ?case by simp
next
  case (visit st weight u v h st')
  from prim_inv_visit [OF _ visit(1,3,4)] visit(5,6) show ?case by simp
next
  case (skip st weight u v h)
  from prim_inv_skip [OF _ skip(1,3)] skip(5) show ?case by simp
qed

lemma prim_loop_card:
  "int (fcard (visited st)) \<le> n \<longrightarrow> int (fcard (visited (prim_loop n st))) \<le> n"
proof (induction rule: prim_loop_induct)
  case (stop st)
  show ?case by simp
next
  case (visit st weight u v h st')
  from visit(2,4) have "int (fcard (visited st')) \<le> n"
    unfolding visit(5) by (simp add: fcard_finsert_disjoint)
  with visit(6) show ?case by simp
next
  case (skip st weight u v h)
  then show ?case by simp
qed

lemma prim_inv_count:
  assumes "prim_inv st"
  shows "int (length (mst_edges st)) = int (fcard (visited st)) - 1"
proof -
  from assms have rf: "rooted_forest {0} (mst_edges st)"
    and vis: "fset (visited st) = insert 0 (edge_dst ` set (mst_edges st))"
    by (simp_all add: prim_inv_def)
  from rooted_forest_distinct [OF rf]
  have d: "distinct (map edge_dst (mst_edges st))" and z: "0 \<notin> edge_dst ` set (mst_edges st)"
    by auto
  have "card (edge_dst ` set (mst_edges st)) = length (mst_edges st)"
    using distinct_card [OF d] by simp
  with z have "card (fset (visited st)) = Suc (length (mst_edges st))"
    unfolding vis by simp
  then show ?thesis by (simp add: fcard.rep_eq)
qed

text \<open>
  Claim C10, amended. The edges returned by Prim's algorithm form a forest rooted at vertex
  0: each selected edge leads from a vertex visited before to a vertex not visited before,
  so no vertex is the destination of two selected edges. When \<open>num_vertices\<close> is not 0,
  the visited vertices are 0 and the destinations, and the number of selected edges is the
  number of visited vertices minus one; when \<open>num_vertices \<ge> 1\<close> it is at most
  \<open>num_vertices - 1\<close>.
\<close>

theorem prim_forest:
  "rooted_forest {0} (snd (prims_mst n adj)) \<and>
   distinct (map edge_dst (snd (prims_mst n adj))) \<and>
   (n \<noteq> 0 \<longrightarrow>
      fset (visited (prims_run n adj)) = insert 0 (edge_dst ` set (snd (prims_mst n adj))) \<and>
      int (length (snd (prims_mst n adj))) = int (fcard (visited (prims_run n adj))) - 1) \<and>
   (1 \<le> n \<longrightarrow> int (length (snd (prims_mst n adj))) \<le> n - 1)"
proof (cases "n = 0")
  case True
  then show ?thesis by (simp add: prims_mst_def)
next
  case False
  have inv: "prim_inv (prims_run n adj)"
    using prim_loop_inv [of "prims_init adj" n] prim_inv_init by (simp add: prims_run_def)
  have es: "snd (prims_mst n adj) = mst_edges (prims_run n adj)"
    using False by (simp add: prims_mst_def Let_def)
  have rf: "rooted_forest {0} (mst_edges (prims_run n adj))"
    using inv by (simp add: prim_inv_def)
  have cnt: "int (length (mst_edges (prims_run n adj))) = int (fcard (visited (prims_run n adj))) - 1"
    using inv by (rule prim_inv_count)
  have "1 \<le> n \<Longrightarrow> int (fcard (visited (prims_run n adj))) \<le> n"
    using prim_loop_card [of "prims_init adj" n]
    by (simp add: prims_run_def prims_init_def fcard_finsert_disjoint fcard_fempty)
  with cnt have le: "1 \<le> n \<Longrightarrow> int (length (mst_edges (prims_run n adj))) \<le> n - 1" by simp
  from rf rooted_forest_distinct [OF rf] cnt le inv show ?thesis
    unfolding es by (simp add: prim_inv_def)
qed

text \<open>
  Claim C10 as stated bounds the number of selected edges by \<open>num_vertices - 1\<close> for every
  input. For \<open>num_vertices = 0\<close> the function returns at once with no edges, and 0 exceeds
  \<open>-1\<close>.
\<close>

theorem prim_forest_counterexample:
  "prims_mst 0 Map.empty = (0, []) \<and>
   \<not> int (length (snd (prims_mst 0 Map.empty))) \<le> 0 - 1"
  by (simp add: prims_mst_def)

theorem prim_forest_witness:
  "(4::int) \<noteq> 0 \<and> (1::int) \<le> 4 \<and>
   fset (visited (prims_run 4 [0 \<mapsto> [(1, 1), (2, 4)], 1 \<mapsto> [(0, 1), (2, 2)],
                               2 \<mapsto> [(1, 2), (0, 4)]])) =
     insert 0 (edge_dst ` set (snd (prims_mst 4 [0 \<mapsto> [(1, 1), (2, 4)],
        1 \<mapsto> [(0, 1), (2, 2)], 2 \<mapsto> [(1, 2), (0, 4)]]))) \<and>
   int (length (snd (prims_mst 4 [0 \<mapsto> [(1, 1), (2, 4)], 1 \<mapsto> [(0, 1), (2, 2)],
                                  2 \<mapsto> [(1, 2), (0, 4)]]))) \<le> 4 - 1"
  using prim_forest [of 4 "[0 \<mapsto> [(1, 1), (2, 4)], 1 \<mapsto> [(0, 1), (2, 2)],
                                  2 \<mapsto> [(1, 2), (0, 4)]]"]
  by simp

section \<open>Paths and the exchange of an edge\<close>

lemma adj_rel_mono: "A \<subseteq> B \<Longrightarrow> adj_rel A \<subseteq> adj_rel B"
  by (auto simp: adj_rel_def)

lemma adj_rel_sym: "sym (adj_rel A)"
  by (auto simp: adj_rel_def sym_def)

lemma adj_rtrancl_sym: "(a, b) \<in> (adj_rel A)\<^sup>* \<Longrightarrow> (b, a) \<in> (adj_rel A)\<^sup>*"
  using sym_rtrancl [OF adj_rel_sym] by (auto simp: sym_def)

lemma adj_rtrancl_mono: "A \<subseteq> B \<Longrightarrow> (a, b) \<in> (adj_rel A)\<^sup>* \<Longrightarrow> (a, b) \<in> (adj_rel B)\<^sup>*"
  using rtrancl_mono [OF adj_rel_mono] by blast

lemma adj_rel_und [simp]: "adj_rel (und A) = adj_rel A"
  by (auto simp: adj_rel_def und_def)

lemma adj_rel_insert:
  "adj_rel (insert (u, v, w) A) = insert (u, v) (insert (v, u) (adj_rel A))"
  by (auto simp: adj_rel_def)

lemma last_use:
  assumes "(a, b) \<in> (adj_rel A)\<^sup>*" and "A \<subseteq> insert (p, q, w) B"
  shows "(a, b) \<in> (adj_rel B)\<^sup>* \<or> (p, b) \<in> (adj_rel B)\<^sup>* \<or> (q, b) \<in> (adj_rel B)\<^sup>*"
  using assms(1)
proof (induction rule: converse_rtrancl_induct)
  case base
  show ?case by simp
next
  case (step a c)
  from step.hyps(1) assms(2) have "(a, c) \<in> adj_rel B \<or> (a = p \<and> c = q) \<or> (a = q \<and> c = p)"
    by (auto simp: adj_rel_def)
  with step.IH show ?case
    by (meson converse_rtrancl_into_rtrancl)
qed

lemma first_cross:
  assumes "(u, v) \<in> (adj_rel A)\<^sup>*" and "u \<in> S" and "v \<notin> S"
  shows "\<exists>x y. (u, x) \<in> (adj_rel {e \<in> A. \<not> crossing S e})\<^sup>* \<and> x \<in> S \<and> y \<notin> S \<and>
            (x, y) \<in> adj_rel A \<and> (y, v) \<in> (adj_rel A)\<^sup>*"
  using assms
proof (induction rule: converse_rtrancl_induct)
  case base
  then show ?case by simp
next
  case (step u c)
  show ?case
  proof (cases "c \<in> S")
    case False
    with step.hyps step.prems show ?thesis by blast
  next
    case True
    from step.IH [OF True step.prems(2)] obtain x y where xy:
      "(c, x) \<in> (adj_rel {e \<in> A. \<not> crossing S e})\<^sup>*" "x \<in> S" "y \<notin> S"
      "(x, y) \<in> adj_rel A" "(y, v) \<in> (adj_rel A)\<^sup>*"
      by blast
    from step.hyps(1) True step.prems(1) have "(u, c) \<in> adj_rel {e \<in> A. \<not> crossing S e}"
      by (auto simp: adj_rel_def crossing_def)
    from this xy(1) have "(u, x) \<in> (adj_rel {e \<in> A. \<not> crossing S e})\<^sup>*"
      by (rule converse_rtrancl_into_rtrancl)
    with xy show ?thesis by blast
  qed
qed

lemma set_mset_remove1: "set_mset T - {f} \<subseteq> set_mset (T - {#f#})"
proof
  fix x assume "x \<in> set_mset T - {f}"
  then have "x \<in># T" "x \<noteq> f" by auto
  then have "0 < count T x" "count {#f#} x = 0" by simp_all
  then show "x \<in># T - {#f#}" unfolding in_diff_count by linarith
qed

lemma tree_path_crossing:
  assumes "(u, v) \<in> (adj_rel (set_mset T))\<^sup>*" and "u \<in> S" and "v \<notin> S"
  shows "\<exists>f x y. f \<in># T \<and> crossing S f \<and> x \<in> S \<and> y \<notin> S \<and>
           (fst f = x \<and> fst (snd f) = y \<or> fst f = y \<and> fst (snd f) = x) \<and>
           (u, x) \<in> (adj_rel (set_mset (T - {#f#})))\<^sup>* \<and>
           (y, v) \<in> (adj_rel (set_mset (T - {#f#})))\<^sup>*"
  using assms
proof (induction "size T" arbitrary: T rule: less_induct)
  case less
  from first_cross [OF less.prems] obtain x y where xy:
    "(u, x) \<in> (adj_rel {e \<in> set_mset T. \<not> crossing S e})\<^sup>*" "x \<in> S" "y \<notin> S"
    "(x, y) \<in> adj_rel (set_mset T)" "(y, v) \<in> (adj_rel (set_mset T))\<^sup>*"
    by blast
  from xy(4) obtain f where f: "f \<in># T"
    "fst f = x \<and> fst (snd f) = y \<or> fst f = y \<and> fst (snd f) = x"
    by (fastforce simp: adj_rel_def)
  from f(2) xy(2,3) have cr: "crossing S f" by (auto simp: crossing_def)
  let ?T = "T - {#f#}"
  have "{e \<in> set_mset T. \<not> crossing S e} \<subseteq> set_mset ?T"
    using cr set_mset_remove1 [of T f] by auto
  from adj_rtrancl_mono [OF this xy(1)] have ux: "(u, x) \<in> (adj_rel (set_mset ?T))\<^sup>*" .
  show ?case
  proof (cases "(y, v) \<in> (adj_rel (set_mset ?T))\<^sup>*")
    case True
    with f cr xy(2,3) ux show ?thesis by blast
  next
    case False
    obtain p q w where pqw: "f = (p, q, w)" by (cases f)
    have "set_mset T \<subseteq> insert (p, q, w) (set_mset ?T)"
      using set_mset_remove1 [of T f] pqw by auto
    from last_use [OF xy(5) this] False
    have "(p, v) \<in> (adj_rel (set_mset ?T))\<^sup>* \<or> (q, v) \<in> (adj_rel (set_mset ?T))\<^sup>*" by simp
    with f(2) pqw False have "(x, v) \<in> (adj_rel (set_mset ?T))\<^sup>*" by auto
    with ux have uv: "(u, v) \<in> (adj_rel (set_mset ?T))\<^sup>*" by (rule rtrancl_trans)
    have "size ?T < size T" using f(1) by (simp add: size_Diff1_less)
    from less.hyps [OF this uv less.prems(2,3)] obtain f' x' y' where f':
      "f' \<in># ?T" "crossing S f'" "x' \<in> S" "y' \<notin> S"
      "fst f' = x' \<and> fst (snd f') = y' \<or> fst f' = y' \<and> fst (snd f') = x'"
      "(u, x') \<in> (adj_rel (set_mset (?T - {#f'#})))\<^sup>*"
      "(y', v) \<in> (adj_rel (set_mset (?T - {#f'#})))\<^sup>*"
      by blast
    have sub: "set_mset (?T - {#f'#}) \<subseteq> set_mset (T - {#f'#})"
      by (metis diff_right_commute diff_subset_eq_self set_mset_mono)
    from f'(1) have "f' \<in># T" by (rule in_diffD)
    with f'(2-5) adj_rtrancl_mono [OF sub f'(6)] adj_rtrancl_mono [OF sub f'(7)]
    show ?thesis by blast
  qed
qed

lemma subset_mset_remove:
  assumes "F \<subseteq># T" and "f \<notin># F"
  shows "F \<subseteq># T - {#f#}"
  unfolding subseteq_mset_def
proof
  fix a
  from assms(1) have le: "count F a \<le> count T a" by (simp add: subseteq_mset_def)
  show "count F a \<le> count (T - {#f#}) a"
  proof (cases "a = f")
    case True
    with assms(2) have "count F a = 0" by (simp add: not_in_iff)
    then show ?thesis by simp
  next
    case False
    with le show ?thesis by simp
  qed
qed

lemma subset_mset_same_size:
  assumes "F \<subseteq># T" and "size T = size F"
  shows "T = F"
proof -
  from assms(1) obtain C where C: "T = F + C" by (auto simp: mset_subset_eq_exists_conv)
  with assms(2) have "C = {#}" by simp
  with C show ?thesis by simp
qed

lemma exchange_edge:
  assumes T: "spanning V E T" and FT: "F \<subseteq># T"
    and nc: "\<forall>f \<in># F. \<not> crossing S f"
    and e: "(u, v, w) \<in> und E" and uS: "u \<in> S" and vS: "v \<notin> S"
    and uv: "0 \<le> u" "u < V" "0 \<le> v" "v < V"
    and minimal: "\<forall>f \<in> und E. crossing S f \<longrightarrow> w \<le> edge_weight f"
  shows "\<exists>T'. spanning V E T' \<and> F + {#(u, v, w)#} \<subseteq># T' \<and> cost T' \<le> cost T"
proof -
  from T uv have "(u, v) \<in> (adj_rel (set_mset T))\<^sup>*"
    by (simp add: spanning_def connected_graph_def)
  from tree_path_crossing [OF this uS vS] obtain f x y where f:
    "f \<in># T" "crossing S f" "x \<in> S" "y \<notin> S"
    "fst f = x \<and> fst (snd f) = y \<or> fst f = y \<and> fst (snd f) = x"
    "(u, x) \<in> (adj_rel (set_mset (T - {#f#})))\<^sup>*"
    "(y, v) \<in> (adj_rel (set_mset (T - {#f#})))\<^sup>*"
    by blast
  let ?T' = "T - {#f#} + {#(u, v, w)#}"
  have sub: "set_mset (T - {#f#}) \<subseteq> set_mset ?T'" by auto
  have ux: "(x, u) \<in> (adj_rel (set_mset ?T'))\<^sup>*"
    using adj_rtrancl_sym [OF adj_rtrancl_mono [OF sub f(6)]] .
  have yv: "(v, y) \<in> (adj_rel (set_mset ?T'))\<^sup>*"
    using adj_rtrancl_sym [OF adj_rtrancl_mono [OF sub f(7)]] .
  have "(u, v) \<in> adj_rel (set_mset ?T')" by (auto simp: adj_rel_def)
  with ux yv have xy: "(x, y) \<in> (adj_rel (set_mset ?T'))\<^sup>*"
    by (meson rtrancl.rtrancl_into_rtrancl rtrancl_trans)
  then have yx: "(y, x) \<in> (adj_rel (set_mset ?T'))\<^sup>*" by (rule adj_rtrancl_sym)
  have "adj_rel (set_mset T) \<subseteq> (adj_rel (set_mset ?T'))\<^sup>*"
  proof
    fix p assume p: "p \<in> adj_rel (set_mset T)"
    obtain a b where ab: "p = (a, b)" by (cases p)
    from p ab obtain g where g: "g \<in># T"
      "fst g = a \<and> fst (snd g) = b \<or> fst g = b \<and> fst (snd g) = a"
      by (fastforce simp: adj_rel_def)
    show "p \<in> (adj_rel (set_mset ?T'))\<^sup>*"
    proof (cases "g = f")
      case True
      with g(2) f(5) xy yx show ?thesis unfolding ab by auto
    next
      case False
      with g(1) have "g \<in># T - {#f#}" using set_mset_remove1 [of T f] by auto
      then have "g \<in># ?T'" by simp
      with g(2) have "(a, b) \<in> adj_rel (set_mset ?T')"
        unfolding adj_rel_def by (cases g) auto
      then show ?thesis unfolding ab by blast
    qed
  qed
  then have "(adj_rel (set_mset T))\<^sup>* \<subseteq> (adj_rel (set_mset ?T'))\<^sup>*"
    by (rule rtrancl_subset_rtrancl)
  with T have conn: "connected_graph V (set_mset ?T')"
    by (auto simp: spanning_def connected_graph_def)
  have "set_mset (T - {#f#}) \<subseteq> set_mset T" by (rule set_mset_mono) simp
  with T e have inE: "set_mset ?T' \<subseteq> und E" by (auto simp: spanning_def)
  have "size (add_mset f (T - {#f#})) = size T"
    using f(1) by (simp only: insert_DiffM)
  then have "size ?T' = size T" by simp
  with T conn inE have sp: "spanning V E ?T'" by (simp add: spanning_def)
  from nc f(2) have "f \<notin># F" by blast
  with FT have "F \<subseteq># T - {#f#}" by (rule subset_mset_remove)
  then have FT': "F + {#(u, v, w)#} \<subseteq># ?T'" by simp
  from T f(1) have "f \<in> und E" by (auto simp: spanning_def)
  with minimal f(2) have wf: "w \<le> edge_weight f" by blast
  have "cost T = cost (T - {#f#}) + edge_weight f"
    using f(1) by (metis cost_def image_mset_add_mset insert_DiffM sum_mset.add_mset add.commute)
  moreover have "cost ?T' = cost (T - {#f#}) + w" by (simp add: cost_def edge_weight_def)
  ultimately have "cost ?T' \<le> cost T" using wf by simp
  with sp FT' show ?thesis by blast
qed

lemma promising_empty: "promising V E {#}"
  by (auto simp: promising_def)

lemma promising_step:
  assumes pr: "promising V E F"
    and nc: "\<forall>f \<in># F. \<not> crossing S f"
    and e: "(u, v, w) \<in> und E" and uS: "u \<in> S" and vS: "v \<notin> S"
    and uv: "0 \<le> u" "u < V" "0 \<le> v" "v < V"
    and minimal: "\<forall>f \<in> und E. crossing S f \<longrightarrow> w \<le> edge_weight f"
  shows "promising V E (F + {#(u, v, w)#})"
  unfolding promising_def
proof (intro allI impI)
  fix T assume "spanning V E T"
  with pr obtain T1 where T1: "spanning V E T1" "F \<subseteq># T1" "cost T1 \<le> cost T"
    by (auto simp: promising_def)
  from exchange_edge [OF T1(1,2) nc e uS vS uv minimal] obtain T' where
    "spanning V E T'" "F + {#(u, v, w)#} \<subseteq># T'" "cost T' \<le> cost T1" by blast
  with T1(3) show "\<exists>T'. spanning V E T' \<and> F + {#(u, v, w)#} \<subseteq># T' \<and> cost T' \<le> cost T"
    by (meson order_trans)
qed

lemma promising_minimal:
  assumes "promising V E F" and "spanning V E F" and "spanning V E T"
  shows "cost F \<le> cost T"
proof -
  from assms(1,3) obtain T' where T': "spanning V E T'" "F \<subseteq># T'" "cost T' \<le> cost T"
    by (auto simp: promising_def)
  from T'(1) assms(2) have "size T' = size F" by (simp add: spanning_def)
  with T'(2) have "T' = F" by (rule subset_mset_same_size)
  with T'(3) show ?thesis by simp
qed

section \<open>Representatives and components\<close>

lemma rep_of_eq: "root_of p k r \<Longrightarrow> rep_of p k = r"
  unfolding rep_of_def by (rule the_equality) (auto dest: root_of_unique)

lemma root_of_rep:
  assumes "dsu_inv s" and "k < length (parent s)"
  shows "root_of (parent s) k (rep_of (parent s) k)"
proof -
  from root_exists [OF assms] obtain r where r: "root_of (parent s) k r" ..
  with rep_of_eq [OF r] show ?thesis by simp
qed

lemma roots_iff: "k \<in> roots p \<longleftrightarrow> root_of p k k"
  using root_of_bound [of p k k] by (auto simp: roots_def intro: root_here)

lemma rep_in_roots:
  assumes "dsu_inv s" and "k < length (parent s)"
  shows "rep_of (parent s) k \<in> roots (parent s)"
  using root_of_bound [OF root_of_rep [OF assms]] by (simp add: roots_def)

lemma rep_of_root: "k \<in> roots p \<Longrightarrow> rep_of p k = k"
  by (simp add: roots_iff rep_of_eq)

lemma finite_roots [simp]: "finite (roots p)"
  by (simp add: roots_def)

lemma compressed_rep_of: "compressed s s' \<Longrightarrow> rep_of (parent s') k = rep_of (parent s) k"
  by (simp add: rep_of_def compressed_root_of)

lemma compressed_roots: "compressed s s' \<Longrightarrow> roots (parent s') = roots (parent s)"
  by (auto simp: roots_iff compressed_root_of)

text \<open>Adding one edge joins the two components of its endpoints.\<close>

lemma adj_insert_rtrancl:
  "(a, b) \<in> (adj_rel (insert (u, v, w) A))\<^sup>* \<longleftrightarrow>
     (a, b) \<in> (adj_rel A)\<^sup>* \<or>
     (a, u) \<in> (adj_rel A)\<^sup>* \<and> (v, b) \<in> (adj_rel A)\<^sup>* \<or>
     (a, v) \<in> (adj_rel A)\<^sup>* \<and> (u, b) \<in> (adj_rel A)\<^sup>*"
  (is "?L \<longleftrightarrow> ?R")
proof
  assume ?R
  have uv: "(u, v) \<in> (adj_rel (insert (u, v, w) A))\<^sup>*" "(v, u) \<in> (adj_rel (insert (u, v, w) A))\<^sup>*"
    by (auto simp: adj_rel_def)
  have m: "\<And>x y. (x, y) \<in> (adj_rel A)\<^sup>* \<Longrightarrow> (x, y) \<in> (adj_rel (insert (u, v, w) A))\<^sup>*"
    by (rule adj_rtrancl_mono [of A]) auto
  from \<open>?R\<close> show ?L
  proof (elim disjE conjE)
    assume "(a, b) \<in> (adj_rel A)\<^sup>*"
    then show ?L by (rule m)
  next
    assume "(a, u) \<in> (adj_rel A)\<^sup>*" "(v, b) \<in> (adj_rel A)\<^sup>*"
    from m [OF this(1)] uv(1) m [OF this(2)] show ?L by (meson rtrancl_trans)
  next
    assume "(a, v) \<in> (adj_rel A)\<^sup>*" "(u, b) \<in> (adj_rel A)\<^sup>*"
    from m [OF this(1)] uv(2) m [OF this(2)] show ?L by (meson rtrancl_trans)
  qed
next
  assume ?L
  then show ?R
  proof (induction rule: converse_rtrancl_induct)
    case base
    show ?case by simp
  next
    case (step a c)
    from step.hyps(1) have "(a, c) \<in> adj_rel A \<or> (a = u \<and> c = v) \<or> (a = v \<and> c = u)"
      by (auto simp: adj_rel_def)
    then show ?case
    proof (elim disjE conjE)
      assume "(a, c) \<in> adj_rel A"
      with step.IH show ?thesis by (meson converse_rtrancl_into_rtrancl)
    next
      assume ac: "a = u" "c = v"
      from step.IH show ?thesis
      proof (elim disjE conjE)
        assume "(c, b) \<in> (adj_rel A)\<^sup>*"
        with ac show ?thesis by auto
      next
        assume "(c, u) \<in> (adj_rel A)\<^sup>*" "(v, b) \<in> (adj_rel A)\<^sup>*"
        with ac show ?thesis by auto
      next
        assume "(c, v) \<in> (adj_rel A)\<^sup>*" "(u, b) \<in> (adj_rel A)\<^sup>*"
        with ac show ?thesis by auto
      qed
    next
      assume ac: "a = v" "c = u"
      from step.IH show ?thesis
      proof (elim disjE conjE)
        assume "(c, b) \<in> (adj_rel A)\<^sup>*"
        with ac show ?thesis by auto
      next
        assume "(c, u) \<in> (adj_rel A)\<^sup>*" "(v, b) \<in> (adj_rel A)\<^sup>*"
        with ac show ?thesis by auto
      next
        assume "(c, v) \<in> (adj_rel A)\<^sup>*" "(u, b) \<in> (adj_rel A)\<^sup>*"
        with ac show ?thesis by auto
      qed
    qed
  qed
qed

text \<open>The effect of a successful union on representatives and on the set of roots.\<close>

lemma link_rep_of:
  assumes inv: "dsu_inv s" and k: "k < length (parent s)"
    and new: "\<And>j z. root_of p' j z \<longleftrightarrow>
               (\<exists>t. root_of (parent s) j t \<and> z = (if t = l then w else t))"
  shows "rep_of p' k = (if rep_of (parent s) k = l then w else rep_of (parent s) k)"
proof -
  have "root_of p' k (if rep_of (parent s) k = l then w else rep_of (parent s) k)"
    unfolding new using root_of_rep [OF inv k] by blast
  then show ?thesis by (rule rep_of_eq)
qed

lemma link_roots:
  assumes inv: "dsu_inv s"
    and w: "w \<in> roots (parent s)" and l: "l \<in> roots (parent s)" and wl: "w \<noteq> l"
    and new: "\<And>j z. root_of p' j z \<longleftrightarrow>
               (\<exists>t. root_of (parent s) j t \<and> z = (if t = l then w else t))"
  shows "roots p' = roots (parent s) - {l}"
proof (intro set_eqI iffI)
  fix k assume "k \<in> roots p'"
  then have "root_of p' k k" by (simp add: roots_iff)
  then obtain t where t: "root_of (parent s) k t" "k = (if t = l then w else t)"
    unfolding new by blast
  show "k \<in> roots (parent s) - {l}"
  proof (cases "t = l")
    case True
    with t have "k = w" "root_of (parent s) w l" by auto
    with w wl show ?thesis using root_of_unique by (fastforce simp: roots_iff)
  next
    case False
    with t show ?thesis by (auto simp: roots_iff)
  qed
next
  fix k assume "k \<in> roots (parent s) - {l}"
  then have "root_of (parent s) k k" "k \<noteq> l" by (auto simp: roots_iff)
  then have "root_of p' k k" unfolding new by auto
  then show "k \<in> roots p'" by (simp add: roots_iff)
qed

section \<open>Correctness of Kruskal's algorithm\<close>

lemma kruskal_inv_skip:
  assumes "kruskal_inv V E st" and "dsu_inv d'" and "compressed (dsu st) d'"
  shows "kruskal_inv V E (st\<lparr>dsu := d'\<rparr>)"
  using assms
  by (simp add: kruskal_inv_def compressed_rep_of compressed_roots compressed_length)

lemma component_not_crossing:
  assumes "f \<in> F"
  shows "\<not> crossing {a. (u, a) \<in> (adj_rel F)\<^sup>*} f"
proof -
  obtain x y c where f: "f = (x, y, c)" by (cases f)
  with assms have xy: "(x, y) \<in> adj_rel F" "(y, x) \<in> adj_rel F" by (auto simp: adj_rel_def)
  then have "(u, x) \<in> (adj_rel F)\<^sup>* \<longleftrightarrow> (u, y) \<in> (adj_rel F)\<^sup>*"
    by (meson rtrancl.rtrancl_into_rtrancl)
  then show ?thesis by (simp add: crossing_def f)
qed

lemma covered_not_crossing:
  assumes "covered X F" and "g \<in> X"
  shows "\<not> crossing {a. (u, a) \<in> (adj_rel F)\<^sup>*} g"
proof -
  from assms have 1: "(fst g, fst (snd g)) \<in> (adj_rel F)\<^sup>*" by (simp add: covered_def)
  then have 2: "(fst (snd g), fst g) \<in> (adj_rel F)\<^sup>*" by (rule adj_rtrancl_sym)
  from 1 2 have "(u, fst g) \<in> (adj_rel F)\<^sup>* \<longleftrightarrow> (u, fst (snd g)) \<in> (adj_rel F)\<^sup>*"
    by (meson rtrancl_trans)
  then show ?thesis by (simp add: crossing_def)
qed

lemma crossing_flip: "crossing S (y, x, c) \<longleftrightarrow> crossing S (x, y, c)"
  by (auto simp: crossing_def)

lemma kruskal_minimal:
  assumes cov: "covered X F" and E: "E \<subseteq> X \<union> insert (u, v, c) R"
    and le: "\<forall>g \<in> R. c \<le> edge_weight g"
  shows "\<forall>f \<in> und E. crossing {a. (u, a) \<in> (adj_rel F)\<^sup>*} f \<longrightarrow> c \<le> edge_weight f"
proof (intro ballI impI)
  fix f assume f: "f \<in> und E" and cr: "crossing {a. (u, a) \<in> (adj_rel F)\<^sup>*} f"
  obtain x y c' where fx: "f = (x, y, c')" by (cases f)
  from f fx obtain g where g: "g \<in> E" "g = (x, y, c') \<or> g = (y, x, c')"
    by (auto simp: und_def)
  from g(2) cr fx have crg: "crossing {a. (u, a) \<in> (adj_rel F)\<^sup>*} g"
    by (auto simp: crossing_flip)
  from g(2) fx have wg: "edge_weight g = edge_weight f" by (auto simp: edge_weight_def)
  from g(1) E have "g \<in> X \<or> g = (u, v, c) \<or> g \<in> R" by auto
  then show "c \<le> edge_weight f"
  proof (elim disjE)
    assume "g \<in> X"
    from covered_not_crossing [OF cov this] crg show ?thesis by simp
  next
    assume "g = (u, v, c)"
    with wg show ?thesis by (simp add: edge_weight_def)
  next
    assume "g \<in> R"
    with le wg show ?thesis by auto
  qed
qed

lemma kruskal_inv_add:
  assumes inv: "kruskal_inv V E st"
    and e: "(u, v, c) \<in> E" and uv: "0 \<le> u" "u < V" "0 \<le> v" "v < V"
    and d': "dsu_inv d'" "length (parent d') = length (parent (dsu st))"
    and wl: "w = rep_of (parent (dsu st)) (nat u) \<and> l = rep_of (parent (dsu st)) (nat v) \<or>
             w = rep_of (parent (dsu st)) (nat v) \<and> l = rep_of (parent (dsu st)) (nat u)"
    and ne: "rep_of (parent (dsu st)) (nat u) \<noteq> rep_of (parent (dsu st)) (nat v)"
    and new: "\<And>j z. root_of (parent d') j z \<longleftrightarrow>
               (\<exists>t. root_of (parent (dsu st)) j t \<and> z = (if t = l then w else t))"
    and minimal: "\<forall>f \<in> und E. crossing {a. (u, a) \<in> (adj_rel (set (mst_edges st)))\<^sup>*} f
                    \<longrightarrow> c \<le> edge_weight f"
  shows "kruskal_inv V E (st\<lparr>dsu := d', mst_cost := mst_cost st + c,
                             mst_edges := mst_edges st @ [(u, v, c)]\<rparr>)"
proof -
  let ?p = "parent (dsu st)" and ?F = "set (mst_edges st)"
  from inv have dinv: "dsu_inv (dsu st)" and len: "int (length ?p) = V"
    and K2: "\<And>a b. a < length ?p \<Longrightarrow> b < length ?p \<Longrightarrow>
               rep_of ?p a = rep_of ?p b \<longleftrightarrow> (int a, int b) \<in> (adj_rel ?F)\<^sup>*"
    and cnt: "int (length (mst_edges st)) + int (card (roots ?p)) = V"
    and pr: "promising V E (mset (mst_edges st))"
    by (simp_all add: kruskal_inv_def)
  from uv len have nu: "nat u < length ?p" "int (nat u) = u"
    and nv: "nat v < length ?p" "int (nat v) = v" by auto
  have K2': "\<And>a b. a < length ?p \<Longrightarrow> b < length ?p \<Longrightarrow>
      rep_of (parent d') a = rep_of (parent d') b \<longleftrightarrow>
      (int a, int b) \<in> (adj_rel (insert (u, v, c) ?F))\<^sup>*"
  proof -
    fix a b assume a: "a < length ?p" and b: "b < length ?p"
    have ra: "rep_of (parent d') a = (if rep_of ?p a = l then w else rep_of ?p a)"
      using dinv a new by (rule link_rep_of)
    have rb: "rep_of (parent d') b = (if rep_of ?p b = l then w else rep_of ?p b)"
      using dinv b new by (rule link_rep_of)
    have au: "(int a, u) \<in> (adj_rel ?F)\<^sup>* \<longleftrightarrow> rep_of ?p a = rep_of ?p (nat u)"
      using K2 [OF a nu(1)] nu(2) by simp
    have av: "(int a, v) \<in> (adj_rel ?F)\<^sup>* \<longleftrightarrow> rep_of ?p a = rep_of ?p (nat v)"
      using K2 [OF a nv(1)] nv(2) by simp
    have ub: "(u, int b) \<in> (adj_rel ?F)\<^sup>* \<longleftrightarrow> rep_of ?p (nat u) = rep_of ?p b"
      using K2 [OF nu(1) b] nu(2) by simp
    have vb: "(v, int b) \<in> (adj_rel ?F)\<^sup>* \<longleftrightarrow> rep_of ?p (nat v) = rep_of ?p b"
      using K2 [OF nv(1) b] nv(2) by simp
    show "rep_of (parent d') a = rep_of (parent d') b \<longleftrightarrow>
      (int a, int b) \<in> (adj_rel (insert (u, v, c) ?F))\<^sup>*"
      unfolding adj_insert_rtrancl ra rb au av ub vb K2 [OF a b, symmetric]
      using wl ne by auto
  qed
  have rw: "rep_of ?p (nat u) \<in> roots ?p" "rep_of ?p (nat v) \<in> roots ?p"
    using rep_in_roots [OF dinv] nu(1) nv(1) by auto
  with wl ne have w: "w \<in> roots ?p" and l: "l \<in> roots ?p" and wl': "w \<noteq> l" by auto
  from link_roots [OF dinv w l wl' new] have r': "roots (parent d') = roots ?p - {l}" .
  have "card (roots ?p) = Suc (card (roots ?p - {l}))"
    using finite_roots l by (rule card.remove)
  then have cnt': "int (length (mst_edges st)) + 1 + int (card (roots (parent d'))) = V"
    using cnt unfolding r' by linarith
  have vS: "v \<notin> {a. (u, a) \<in> (adj_rel ?F)\<^sup>*}"
    using K2 [OF nu(1) nv(1)] nu(2) nv(2) ne by simp
  have nc: "\<forall>f \<in># mset (mst_edges st). \<not> crossing {a. (u, a) \<in> (adj_rel ?F)\<^sup>*} f"
    using component_not_crossing [of _ ?F u] by simp
  have eE: "(u, v, c) \<in> und E" using e by (simp add: und_def)
  have "promising V E (mset (mst_edges st) + {#(u, v, c)#})"
    using pr nc eE _ vS uv minimal by (rule promising_step) simp
  then have pr': "promising V E (mset (mst_edges st @ [(u, v, c)]))" by simp
  from inv e d' len K2' cnt' pr' show ?thesis
    by (simp add: kruskal_inv_def edge_weight_def)
qed

lemma covered_mono: "covered X F \<Longrightarrow> F \<subseteq> F' \<Longrightarrow> covered X F'"
  unfolding covered_def using adj_rtrancl_mono by blast

lemma covered_insert:
  "covered X F \<Longrightarrow> (fst e, fst (snd e)) \<in> (adj_rel F)\<^sup>* \<Longrightarrow> covered (insert e X) F"
  by (simp add: covered_def)

lemma kruskal_loop_correct:
  assumes wf: "wf_edges V E"
  shows "kruskal_inv V E st \<Longrightarrow> covered X (set (mst_edges st)) \<Longrightarrow>
         E \<subseteq> X \<union> set rest \<Longrightarrow> set rest \<subseteq> E \<Longrightarrow> sorted (map edge_weight rest) \<Longrightarrow>
         \<exists>st'. kruskal_loop V rest st = Some (Inr st') \<and> kruskal_inv V E st' \<and>
           (int (length (mst_edges st')) = V - 1 \<or> covered E (set (mst_edges st')))"
proof (induction rest arbitrary: st X)
  case Nil
  then have "covered E (set (mst_edges st))"
    by (auto simp: covered_def)
  with Nil show ?case by simp
next
  case (Cons e rest)
  obtain u v c where e: "e = (u, v, c)" by (cases e)
  let ?d = "dsu st" and ?F = "set (mst_edges st)"
  from Cons.prems(4) e have eE: "(u, v, c) \<in> E" by simp
  with wf have uv: "0 \<le> u" "u < V" "0 \<le> v" "v < V" by (auto simp: wf_edges_def)
  from Cons.prems(1) have dinv: "dsu_inv ?d" and len: "int (length (parent ?d)) = V"
    and K2: "\<And>a b. a < length (parent ?d) \<Longrightarrow> b < length (parent ?d) \<Longrightarrow>
               rep_of (parent ?d) a = rep_of (parent ?d) b \<longleftrightarrow>
               (int a, int b) \<in> (adj_rel ?F)\<^sup>*"
    by (simp_all add: kruskal_inv_def)
  from uv len have nu: "nat u < length (parent ?d)" "int (nat u) = u"
    and nv: "nat v < length (parent ?d)" "int (nat v) = v" by auto
  have iu: "py_index (parent ?d) u = Some (nat u)" and iv: "py_index (parent ?d) v = Some (nat v)"
    using uv len by (simp_all add: py_index_def)
  have rest: "set rest \<subseteq> E" "sorted (map edge_weight rest)"
    using Cons.prems(4,5) by simp_all
  have E': "E \<subseteq> insert e X \<union> set rest" using Cons.prems(3) by auto
  from union_spec [OF dinv iu iv] obtain rx ry where
    rx: "root_of (parent ?d) (nat u) rx" and ry: "root_of (parent ?d) (nat v) ry"
    and un: "if rx = ry then
        \<exists>s'. union ?d u v = Some (Inr (s', False)) \<and> dsu_inv s' \<and> compressed ?d s'
      else
        \<exists>s' w l. union ?d u v = Some (Inr (s', True)) \<and> dsu_inv s' \<and>
          length (parent s') = length (parent ?d) \<and> (w = rx \<and> l = ry \<or> w = ry \<and> l = rx) \<and>
          (\<forall>j z. root_of (parent s') j z \<longleftrightarrow>
             (\<exists>t. root_of (parent ?d) j t \<and> z = (if t = l then w else t)))"
    by blast
  have repu: "rep_of (parent ?d) (nat u) = rx" and repv: "rep_of (parent ?d) (nat v) = ry"
    using rx ry by (simp_all add: rep_of_eq)
  show ?case
  proof (cases "rx = ry")
    case True
    with un obtain s' where s': "union ?d u v = Some (Inr (s', False))" "dsu_inv s'"
      "compressed ?d s'" by auto
    let ?st1 = "st\<lparr>dsu := s'\<rparr>"
    have inv1: "kruskal_inv V E ?st1"
      using Cons.prems(1) s'(2,3) by (rule kruskal_inv_skip)
    from True repu repv K2 [OF nu(1) nv(1)] nu(2) nv(2)
    have "(u, v) \<in> (adj_rel ?F)\<^sup>*" by simp
    with Cons.prems(2) have cov1: "covered (insert e X) (set (mst_edges ?st1))"
      by (simp add: covered_def e)
    from Cons.IH [OF inv1 cov1 E' rest] obtain st' where
      "kruskal_loop V rest ?st1 = Some (Inr st')" "kruskal_inv V E st'"
      "int (length (mst_edges st')) = V - 1 \<or> covered E (set (mst_edges st'))"
      by blast
    moreover have "kruskal_loop V (e # rest) st = kruskal_loop V rest ?st1"
      using s'(1) by (simp add: e)
    ultimately show ?thesis by auto
  next
    case False
    with un obtain s' w l where s': "union ?d u v = Some (Inr (s', True))" "dsu_inv s'"
      "length (parent s') = length (parent ?d)" "w = rx \<and> l = ry \<or> w = ry \<and> l = rx"
      and new: "\<And>j z. root_of (parent s') j z \<longleftrightarrow>
             (\<exists>t. root_of (parent ?d) j t \<and> z = (if t = l then w else t))"
      by auto
    let ?st1 = "st\<lparr>dsu := s', mst_cost := mst_cost st + c,
                    mst_edges := mst_edges st @ [(u, v, c)]\<rparr>"
    have le: "\<forall>g \<in> set rest. c \<le> edge_weight g"
      using Cons.prems(5) by (auto simp: e edge_weight_def)
    have Eu: "E \<subseteq> X \<union> insert (u, v, c) (set rest)" using Cons.prems(3) e by auto
    have minimal: "\<forall>f \<in> und E. crossing {a. (u, a) \<in> (adj_rel ?F)\<^sup>*} f \<longrightarrow> c \<le> edge_weight f"
      using Cons.prems(2) Eu le by (rule kruskal_minimal)
    have wl: "w = rep_of (parent ?d) (nat u) \<and> l = rep_of (parent ?d) (nat v) \<or>
              w = rep_of (parent ?d) (nat v) \<and> l = rep_of (parent ?d) (nat u)"
      using s'(4) repu repv by simp
    have ne: "rep_of (parent ?d) (nat u) \<noteq> rep_of (parent ?d) (nat v)"
      using False repu repv by simp
    have inv1: "kruskal_inv V E ?st1"
      using Cons.prems(1) eE uv s'(2,3) wl ne new minimal by (rule kruskal_inv_add)
    have unfold: "kruskal_loop V (e # rest) st =
        (if int (length (mst_edges ?st1)) = V - 1 then Some (Inr ?st1)
         else kruskal_loop V rest ?st1)"
      using s'(1) by (simp add: e Let_def)
    show ?thesis
    proof (cases "int (length (mst_edges ?st1)) = V - 1")
      case True
      with unfold inv1 show ?thesis by auto
    next
      case nf: False
      have "covered X (set (mst_edges ?st1))"
        using Cons.prems(2) by (rule covered_mono) auto
      moreover have "(fst e, fst (snd e)) \<in> (adj_rel (set (mst_edges ?st1)))\<^sup>*"
        by (auto simp: e adj_rel_def)
      ultimately have cov1: "covered (insert e X) (set (mst_edges ?st1))"
        by (rule covered_insert)
      from Cons.IH [OF inv1 cov1 E' rest] obtain st' where
        "kruskal_loop V rest ?st1 = Some (Inr st')" "kruskal_inv V E st'"
        "int (length (mst_edges st')) = V - 1 \<or> covered E (set (mst_edges st'))"
        by blast
      with unfold nf show ?thesis by auto
    qed
  qed
qed

lemma edge_weight_key: "(\<lambda>(node1, node2, weight). weight) = edge_weight"
  by (auto simp: edge_weight_def)

lemma create_parent_nth: "k < nat V \<Longrightarrow> parent (create V) ! k = int k"
  by (simp add: create_def)

lemma create_length: "length (parent (create V)) = nat V"
  by (simp add: create_def)

lemma create_roots: "roots (parent (create V)) = {..<nat V}"
  by (auto simp: roots_def create_length create_parent_nth)

lemma create_rep_of: "k < nat V \<Longrightarrow> rep_of (parent (create V)) k = k"
  by (rule rep_of_root) (simp add: create_roots)

lemma adj_rel_empty [simp]: "adj_rel {} = {}"
  by (simp add: adj_rel_def)

lemma kruskal_inv_init:
  assumes "0 \<le> V"
  shows "kruskal_inv V E \<lparr>mst_cost = 0, mst_edges = [], edge_list = es, dsu = create V\<rparr>"
  using assms
  by (simp add: kruskal_inv_def create_inv create_length create_roots create_rep_of
      promising_empty)

lemma kruskals_run_correct:
  assumes "0 \<le> V" and "wf_edges V (set es)"
  shows "\<exists>st'. kruskals_run V es = Some (Inr st') \<and> kruskal_inv V (set es) st' \<and>
           (int (length (mst_edges st')) = V - 1 \<or> covered (set es) (set (mst_edges st')))"
proof -
  let ?L = "sort_key edge_weight es"
  let ?st0 = "\<lparr>mst_cost = 0, mst_edges = [], edge_list = es, dsu = create V\<rparr>"
  have 1: "kruskal_inv V (set es) ?st0" using assms(1) by (rule kruskal_inv_init)
  have 2: "covered {} (set (mst_edges ?st0))" by (simp add: covered_def)
  have 3: "set es \<subseteq> {} \<union> set ?L" "set ?L \<subseteq> set es" by simp_all
  have 4: "sorted (map edge_weight ?L)" by (rule sorted_sort_key)
  from kruskal_loop_correct [OF assms(2) 1 2 3 4]
  show ?thesis by (simp add: kruskals_run_def edge_weight_key)
qed

lemma one_root_iff:
  assumes inv: "dsu_inv s" and n: "0 < length (parent s)"
  shows "card (roots (parent s)) = 1 \<longleftrightarrow>
         (\<forall>a b. a < length (parent s) \<and> b < length (parent s) \<longrightarrow>
            rep_of (parent s) a = rep_of (parent s) b)"
proof
  assume "card (roots (parent s)) = 1"
  then obtain r where r: "roots (parent s) = {r}" by (auto simp: card_1_singleton_iff)
  show "\<forall>a b. a < length (parent s) \<and> b < length (parent s) \<longrightarrow>
            rep_of (parent s) a = rep_of (parent s) b"
    using rep_in_roots [OF inv] unfolding r by auto
next
  assume same: "\<forall>a b. a < length (parent s) \<and> b < length (parent s) \<longrightarrow>
            rep_of (parent s) a = rep_of (parent s) b"
  have "roots (parent s) = {rep_of (parent s) 0}"
  proof (intro set_eqI iffI)
    fix k assume k: "k \<in> roots (parent s)"
    then have "k < length (parent s)" by (simp add: roots_def)
    with same n have "rep_of (parent s) k = rep_of (parent s) 0" by blast
    with rep_of_root [OF k] show "k \<in> {rep_of (parent s) 0}" by simp
  next
    fix k assume "k \<in> {rep_of (parent s) 0}"
    with rep_in_roots [OF inv n] show "k \<in> roots (parent s)" by simp
  qed
  then show "card (roots (parent s)) = 1" by simp
qed

lemma covered_adj: "covered E F \<Longrightarrow> (a, b) \<in> (adj_rel E)\<^sup>* \<Longrightarrow> (a, b) \<in> (adj_rel F)\<^sup>*"
proof -
  assume cov: "covered E F" and ab: "(a, b) \<in> (adj_rel E)\<^sup>*"
  have "adj_rel E \<subseteq> (adj_rel F)\<^sup>*"
  proof
    fix p assume p: "p \<in> adj_rel E"
    obtain x y where xy: "p = (x, y)" by (cases p)
    from p xy obtain w where "(x, y, w) \<in> E \<or> (y, x, w) \<in> E" by (auto simp: adj_rel_def)
    with cov have "(x, y) \<in> (adj_rel F)\<^sup>* \<or> (y, x) \<in> (adj_rel F)\<^sup>*"
      by (fastforce simp: covered_def)
    with adj_rtrancl_sym show "p \<in> (adj_rel F)\<^sup>*" unfolding xy by blast
  qed
  from rtrancl_subset_rtrancl [OF this] ab show ?thesis by blast
qed

lemma connected_graph_mono: "connected_graph V A \<Longrightarrow> A \<subseteq> B \<Longrightarrow> connected_graph V B"
  unfolding connected_graph_def using adj_rtrancl_mono by blast

lemma kruskal_final:
  assumes inv: "kruskal_inv V E st" and V: "1 \<le> V"
    and fin: "int (length (mst_edges st)) = V - 1 \<or> covered E (set (mst_edges st))"
  shows "int (length (mst_edges st)) \<le> V - 1"
    and "connected_graph V E \<longleftrightarrow> int (length (mst_edges st)) = V - 1"
    and "int (length (mst_edges st)) = V - 1 \<Longrightarrow> connected_graph V (set (mst_edges st))"
proof -
  let ?p = "parent (dsu st)" and ?F = "set (mst_edges st)"
  from inv have dinv: "dsu_inv (dsu st)" and len: "int (length ?p) = V"
    and FE: "?F \<subseteq> E"
    and K2: "\<And>a b. a < length ?p \<Longrightarrow> b < length ?p \<Longrightarrow>
               rep_of ?p a = rep_of ?p b \<longleftrightarrow> (int a, int b) \<in> (adj_rel ?F)\<^sup>*"
    and cnt: "int (length (mst_edges st)) + int (card (roots ?p)) = V"
    by (simp_all add: kruskal_inv_def)
  from len V have n: "0 < length ?p" by auto
  from rep_in_roots [OF dinv n] have "card (roots ?p) \<noteq> 0" by auto
  with cnt show le: "int (length (mst_edges st)) \<le> V - 1" by linarith
  have one: "int (length (mst_edges st)) = V - 1 \<longleftrightarrow> card (roots ?p) = 1"
    using cnt by linarith
  have conn_iff: "connected_graph V ?F \<longleftrightarrow> card (roots ?p) = 1"
  proof -
    have "connected_graph V ?F \<longleftrightarrow>
        (\<forall>a b. a < length ?p \<and> b < length ?p \<longrightarrow> (int a, int b) \<in> (adj_rel ?F)\<^sup>*)"
    proof
      assume c: "connected_graph V ?F"
      show "\<forall>a b. a < length ?p \<and> b < length ?p \<longrightarrow> (int a, int b) \<in> (adj_rel ?F)\<^sup>*"
        using c len by (auto simp: connected_graph_def)
    next
      assume c: "\<forall>a b. a < length ?p \<and> b < length ?p \<longrightarrow> (int a, int b) \<in> (adj_rel ?F)\<^sup>*"
      show "connected_graph V ?F"
        unfolding connected_graph_def
      proof (intro allI impI)
        fix a b assume "0 \<le> a \<and> a < V \<and> 0 \<le> b \<and> b < V"
        with len have "nat a < length ?p" "nat b < length ?p" "int (nat a) = a" "int (nat b) = b"
          by auto
        with c show "(a, b) \<in> (adj_rel ?F)\<^sup>*" by metis
      qed
    qed
    also have "\<dots> \<longleftrightarrow> card (roots ?p) = 1"
      unfolding one_root_iff [OF dinv n] using K2 by blast
    finally show ?thesis .
  qed
  show "int (length (mst_edges st)) = V - 1 \<Longrightarrow> connected_graph V ?F"
    using one conn_iff by simp
  show "connected_graph V E \<longleftrightarrow> int (length (mst_edges st)) = V - 1"
  proof
    assume "int (length (mst_edges st)) = V - 1"
    with one conn_iff have "connected_graph V ?F" by simp
    then show "connected_graph V E" using FE by (rule connected_graph_mono)
  next
    assume c: "connected_graph V E"
    show "int (length (mst_edges st)) = V - 1"
    proof (rule ccontr)
      assume nf: "int (length (mst_edges st)) \<noteq> V - 1"
      with fin have cov: "covered E ?F" by simp
      have "connected_graph V ?F"
        using c covered_adj [OF cov] by (auto simp: connected_graph_def)
      with conn_iff one nf show False by simp
    qed
  qed
qed

section \<open>Correctness of Prim's algorithm\<close>

lemma heappop_keeps:
  assumes "heappop h = (x, h')" and "y \<in> set h" and "y \<noteq> x"
  shows "y \<in> set h'"
  using assms by (auto simp: heappop_def)

lemma rooted_forest_src:
  "rooted_forest A es \<Longrightarrow> e \<in> set es \<Longrightarrow> fst e \<in> A \<union> edge_dst ` set es"
proof (induction es arbitrary: A)
  case Nil
  then show ?case by simp
next
  case (Cons x es)
  obtain a b c where x: "x = (a, b, c)" by (cases x)
  from Cons.prems(1) have a: "a \<in> A" and rf: "rooted_forest (insert b A) es"
    by (simp_all add: x)
  show ?case
  proof (cases "e = x")
    case True
    with a x show ?thesis by simp
  next
    case False
    with Cons.prems(2) have "e \<in> set es" by simp
    from Cons.IH [OF rf this] show ?thesis by (auto simp: x edge_dst_def)
  qed
qed

lemma prim_inv_not_crossing:
  assumes "prim_inv st" and "f \<in> set (mst_edges st)"
  shows "\<not> crossing (fset (visited st)) f"
proof -
  from assms(1) have rf: "rooted_forest {0} (mst_edges st)"
    and vis: "fset (visited st) = insert 0 (edge_dst ` set (mst_edges st))"
    by (simp_all add: prim_inv_def)
  from rooted_forest_src [OF rf assms(2)] have "fst f \<in> fset (visited st)"
    unfolding vis by simp
  moreover from assms(2) have "fst (snd f) \<in> fset (visited st)"
    unfolding vis by (auto simp: edge_dst_def)
  ultimately show ?thesis by (simp add: crossing_def)
qed

lemma und_symmetric:
  assumes "\<forall>u v w. (u, v, w) \<in> E \<longrightarrow> (v, u, w) \<in> E"
  shows "und E = E"
  using assms by (auto simp: und_def)

lemma prim_full_inv_init:
  assumes "1 \<le> V"
  shows "prim_full_inv V adj (prims_init adj)"
  unfolding prim_full_inv_def
proof (intro conjI)
  show "prim_inv (prims_init adj)" by (rule prim_inv_init)
  show "promising V (adj_edges adj) (mset (mst_edges (prims_init adj)))"
    by (simp add: prims_init_def promising_empty)
qed (use assms in \<open>auto simp: prims_init_def push_start_set adj_edges_def\<close>)

lemma prim_full_inv_skip:
  assumes inv: "prim_full_inv V adj st" and ne: "min_heap st \<noteq> []"
    and pop: "heappop (min_heap st) = ((weight, u, v), h)" and old: "v |\<in>| visited st"
  shows "prim_full_inv V adj (st\<lparr>min_heap := h\<rparr>)"
proof -
  from inv have pinv: "prim_inv st" by (simp add: prim_full_inv_def)
  have sub: "set h \<subseteq> set (min_heap st)" using heappop_set(2) [OF ne pop] .
  have complete: "\<forall>a b c. a |\<in>| visited st \<and> (a, b, c) \<in> adj_edges adj \<and> b |\<notin>| visited st \<longrightarrow>
        (c, a, b) \<in> set h"
  proof (intro allI impI)
    fix a b c assume abc: "a |\<in>| visited st \<and> (a, b, c) \<in> adj_edges adj \<and> b |\<notin>| visited st"
    with inv have "(c, a, b) \<in> set (min_heap st)" by (simp add: prim_full_inv_def)
    moreover from abc old have "(c, a, b) \<noteq> (weight, u, v)" by auto
    ultimately show "(c, a, b) \<in> set h" using pop by (rule heappop_keeps [rotated])
  qed
  from inv sub complete prim_inv_skip [OF pinv ne pop] show ?thesis
    by (auto simp: prim_full_inv_def)
qed

lemma prim_full_inv_visit:
  assumes wf: "wf_adj V adj"
    and inv: "prim_full_inv V adj st" and ne: "min_heap st \<noteq> []"
    and pop: "heappop (min_heap st) = ((weight, u, v), h)" and new: "v |\<notin>| visited st"
  shows "prim_full_inv V adj
           (st\<lparr>visited := finsert v (visited st),
               mst_cost := mst_cost st + weight,
               mst_edges := mst_edges st @ [(u, v, weight)],
               min_heap := push_neighbors v (finsert v (visited st))
                             (adj_get (adj_list st) v) h\<rparr>)"
    (is "prim_full_inv V adj ?st'")
proof -
  let ?E = "adj_edges adj" and ?F = "set (mst_edges st)"
  from inv have pinv: "prim_inv st" and adj: "adj_list st = adj"
    and sound: "\<forall>x \<in> set (min_heap st). (fst (snd x), snd (snd x), fst x) \<in> ?E"
    and complete: "\<And>a b c. a |\<in>| visited st \<Longrightarrow> (a, b, c) \<in> ?E \<Longrightarrow> b |\<notin>| visited st \<Longrightarrow>
        (c, a, b) \<in> set (min_heap st)"
    and FE: "?F \<subseteq> ?E"
    and reach: "\<And>a. a |\<in>| visited st \<Longrightarrow> (0, a) \<in> (adj_rel ?F)\<^sup>*"
    and bound: "\<And>a. a |\<in>| visited st \<Longrightarrow> 0 \<le> a \<and> a < V"
    and pr: "promising V ?E (mset (mst_edges st))"
    by (simp_all add: prim_full_inv_def)
  from wf have wfE: "wf_edges V ?E" and symE: "\<forall>a b c. (a, b, c) \<in> ?E \<longrightarrow> (b, a, c) \<in> ?E"
    by (simp_all add: wf_adj_def)
  from heappop_set [OF ne pop] have mem: "(weight, u, v) \<in> set (min_heap st)"
    and sub: "set h \<subseteq> set (min_heap st)"
    and least: "\<forall>y \<in> set (min_heap st). (weight, u, v) \<le> y" by auto
  from pinv mem have u: "u |\<in>| visited st" by (fastforce simp: prim_inv_def)
  from sound mem have eE: "(u, v, weight) \<in> ?E" by fastforce
  with wfE have vb: "0 \<le> v" "v < V" by (auto simp: wf_edges_def)
  from bound [OF u] have ub: "0 \<le> u" "u < V" by auto
  have 1: "prim_inv ?st'" using pinv ne pop new by (rule prim_inv_visit)
  have 2: "adj_list ?st' = adj" using adj by simp
  have heap': "set (min_heap ?st') =
      set h \<union> {(w, v, nb) | nb w. (nb, w) \<in> set (adj_get adj v) \<and> nb |\<notin>| finsert v (visited st)}"
    by (simp add: push_neighbors_set adj)
  have 3: "\<forall>x \<in> set (min_heap ?st'). (fst (snd x), snd (snd x), fst x) \<in> ?E"
    unfolding heap' using sound sub by (auto simp: adj_edges_def)
  have 4: "\<forall>a b c. a |\<in>| visited ?st' \<and> (a, b, c) \<in> ?E \<and> b |\<notin>| visited ?st' \<longrightarrow>
        (c, a, b) \<in> set (min_heap ?st')"
  proof (intro allI impI)
    fix a b c assume abc: "a |\<in>| visited ?st' \<and> (a, b, c) \<in> ?E \<and> b |\<notin>| visited ?st'"
    then have b: "b \<noteq> v" "b |\<notin>| visited st" and abE: "(a, b, c) \<in> ?E" by auto
    show "(c, a, b) \<in> set (min_heap ?st')"
    proof (cases "a = v")
      case True
      with abE b show ?thesis unfolding heap' by (auto simp: adj_edges_def)
    next
      case False
      with abc have "a |\<in>| visited st" by simp
      from complete [OF this abE b(2)] have "(c, a, b) \<in> set (min_heap st)" .
      moreover from b(1) have "(c, a, b) \<noteq> (weight, u, v)" by simp
      ultimately have "(c, a, b) \<in> set h" using pop by (rule heappop_keeps [rotated])
      then show ?thesis unfolding heap' by simp
    qed
  qed
  have 5: "set (mst_edges ?st') \<subseteq> ?E" using FE eE by simp
  have 6: "\<forall>a. a |\<in>| visited ?st' \<longrightarrow> (0, a) \<in> (adj_rel (set (mst_edges ?st')))\<^sup>*"
  proof (intro allI impI)
    fix a assume a: "a |\<in>| visited ?st'"
    have m: "\<And>x. (0, x) \<in> (adj_rel ?F)\<^sup>* \<Longrightarrow> (0, x) \<in> (adj_rel (set (mst_edges ?st')))\<^sup>*"
      by (rule adj_rtrancl_mono [of ?F]) auto
    show "(0, a) \<in> (adj_rel (set (mst_edges ?st')))\<^sup>*"
    proof (cases "a = v")
      case True
      have "(u, v) \<in> adj_rel (set (mst_edges ?st'))" by (auto simp: adj_rel_def)
      with m [OF reach [OF u]] True show ?thesis by (meson rtrancl.rtrancl_into_rtrancl)
    next
      case False
      with a have "a |\<in>| visited st" by simp
      from m [OF reach [OF this]] show ?thesis .
    qed
  qed
  have 7: "\<forall>a. a |\<in>| visited ?st' \<longrightarrow> 0 \<le> a \<and> a < V"
    using bound vb by auto
  have nc: "\<forall>f \<in># mset (mst_edges st). \<not> crossing (fset (visited st)) f"
    using prim_inv_not_crossing [OF pinv] by simp
  have undE: "und ?E = ?E" using symE by (rule und_symmetric)
  have minimal: "\<forall>f \<in> und ?E. crossing (fset (visited st)) f \<longrightarrow> weight \<le> edge_weight f"
  proof (intro ballI impI)
    fix f assume f: "f \<in> und ?E" and cr: "crossing (fset (visited st)) f"
    obtain x y c where fx: "f = (x, y, c)" by (cases f)
    from f fx undE symE have xy: "(x, y, c) \<in> ?E" "(y, x, c) \<in> ?E" by auto
    from cr fx have "x |\<in>| visited st \<and> y |\<notin>| visited st \<or> y |\<in>| visited st \<and> x |\<notin>| visited st"
      by (auto simp: crossing_def)
    then have "(c, x, y) \<in> set (min_heap st) \<or> (c, y, x) \<in> set (min_heap st)"
      using complete xy by blast
    with least have "(weight, u, v) \<le> (c, x, y) \<or> (weight, u, v) \<le> (c, y, x)" by blast
    then have "weight \<le> c" by (auto simp: less_eq_prod_def)
    then show "weight \<le> edge_weight f" by (simp add: fx edge_weight_def)
  qed
  have "promising V ?E (mset (mst_edges st) + {#(u, v, weight)#})"
    using pr nc _ _ _ ub vb minimal
  proof (rule promising_step)
    show "(u, v, weight) \<in> und ?E" using eE undE by simp
    show "u \<in> fset (visited st)" using u by simp
    show "v \<notin> fset (visited st)" using new by simp
  qed
  then have 8: "promising V ?E (mset (mst_edges ?st'))" by simp
  from 1 2 3 4 5 6 7 8 show ?thesis unfolding prim_full_inv_def by blast
qed

lemma prim_loop_full_inv:
  assumes wf: "wf_adj V adj"
  shows "prim_full_inv V adj st \<longrightarrow>
         prim_full_inv V adj (prim_loop V st) \<and>
         (min_heap (prim_loop V st) = [] \<or> V \<le> int (fcard (visited (prim_loop V st))))"
proof (induction rule: prim_loop_induct)
  case (stop st)
  then show ?case by auto
next
  case (visit st weight u v h st')
  from prim_full_inv_visit [OF wf _ visit(1,3,4)] visit(5,6) show ?case by simp
next
  case (skip st weight u v h)
  from prim_full_inv_skip [OF _ skip(1,3,4)] skip(5) show ?case by simp
qed

lemma prim_final:
  assumes wf: "wf_adj V adj" and V: "1 \<le> V"
    and inv: "prim_full_inv V adj st"
    and exit: "min_heap st = [] \<or> V \<le> int (fcard (visited st))"
  shows "int (length (mst_edges st)) \<le> V - 1"
    and "connected_graph V (adj_edges adj) \<longleftrightarrow> int (length (mst_edges st)) = V - 1"
    and "int (length (mst_edges st)) = V - 1 \<Longrightarrow> connected_graph V (set (mst_edges st))"
proof -
  let ?E = "adj_edges adj" and ?F = "set (mst_edges st)" and ?vis = "fset (visited st)"
  from inv have pinv: "prim_inv st"
    and complete: "\<And>a b c. a |\<in>| visited st \<Longrightarrow> (a, b, c) \<in> ?E \<Longrightarrow> b |\<notin>| visited st \<Longrightarrow>
        (c, a, b) \<in> set (min_heap st)"
    and FE: "?F \<subseteq> ?E"
    and reach: "\<And>a. a |\<in>| visited st \<Longrightarrow> (0, a) \<in> (adj_rel ?F)\<^sup>*"
    and bound: "\<And>a. a |\<in>| visited st \<Longrightarrow> 0 \<le> a \<and> a < V"
    by (simp_all add: prim_full_inv_def)
  from wf have symE: "\<And>a b c. (a, b, c) \<in> ?E \<Longrightarrow> (b, a, c) \<in> ?E"
    by (simp add: wf_adj_def)
  have cnt: "int (length (mst_edges st)) = int (card ?vis) - 1"
    using prim_inv_count [OF pinv] by (simp add: fcard.rep_eq)
  have sub: "?vis \<subseteq> {0..<V}" using bound by auto
  have "card ?vis \<le> card {0..<V}" by (rule card_mono [OF _ sub]) simp
  then have cle: "int (card ?vis) \<le> V" using V by simp
  with cnt show "int (length (mst_edges st)) \<le> V - 1" by simp
  have full: "int (length (mst_edges st)) = V - 1 \<Longrightarrow> ?vis = {0..<V}"
  proof -
    assume "int (length (mst_edges st)) = V - 1"
    with cnt V have "card ?vis = card {0..<V}" by simp
    with sub show "?vis = {0..<V}" by (intro card_subset_eq) simp_all
  qed
  show connF: "int (length (mst_edges st)) = V - 1 \<Longrightarrow> connected_graph V ?F"
  proof -
    assume "int (length (mst_edges st)) = V - 1"
    from full [OF this] have all: "\<And>a. 0 \<le> a \<Longrightarrow> a < V \<Longrightarrow> (0, a) \<in> (adj_rel ?F)\<^sup>*"
      using reach by auto
    show "connected_graph V ?F"
      unfolding connected_graph_def
    proof (intro allI impI)
      fix a b assume ab: "0 \<le> a \<and> a < V \<and> 0 \<le> b \<and> b < V"
      then have "(0, a) \<in> (adj_rel ?F)\<^sup>*" "(0, b) \<in> (adj_rel ?F)\<^sup>*" using all by auto
      from adj_rtrancl_sym [OF this(1)] this(2) show "(a, b) \<in> (adj_rel ?F)\<^sup>*"
        by (rule rtrancl_trans)
    qed
  qed
  show "connected_graph V ?E \<longleftrightarrow> int (length (mst_edges st)) = V - 1"
  proof
    assume "int (length (mst_edges st)) = V - 1"
    from connF [OF this] FE show "connected_graph V ?E" by (rule connected_graph_mono)
  next
    assume conn: "connected_graph V ?E"
    from exit show "int (length (mst_edges st)) = V - 1"
    proof
      assume "V \<le> int (fcard (visited st))"
      with cle cnt show ?thesis by (simp add: fcard.rep_eq)
    next
      assume empty: "min_heap st = []"
      have zero: "0 |\<in>| visited st" using pinv by (simp add: prim_inv_def)
      have closed: "(0, a) \<in> (adj_rel ?E)\<^sup>* \<Longrightarrow> a |\<in>| visited st" for a
      proof (induction rule: rtrancl_induct)
        case base
        show ?case by (rule zero)
      next
        case (step y z)
        from step.hyps(2) obtain w where "(y, z, w) \<in> ?E"
          using symE by (auto simp: adj_rel_def)
        with complete [OF step.IH this] empty show ?case by auto
      qed
      have "{0..<V} \<subseteq> ?vis"
      proof
        fix a assume "a \<in> {0..<V}"
        with conn V have "(0, a) \<in> (adj_rel ?E)\<^sup>*" by (simp add: connected_graph_def)
        then show "a \<in> ?vis" using closed by simp
      qed
      with sub have "?vis = {0..<V}" by auto
      with cnt V show ?thesis by simp
    qed
  qed
qed

lemma prims_run_correct:
  assumes wf: "wf_adj V adj" and V: "1 \<le> V"
  shows "prim_full_inv V adj (prims_run V adj) \<and>
         (min_heap (prims_run V adj) = [] \<or> V \<le> int (fcard (visited (prims_run V adj))))"
  using prim_loop_full_inv [OF wf, of "prims_init adj"] prim_full_inv_init [OF V, of adj]
  by (simp add: prims_run_def)

text \<open>The adjacency list that \<open>main\<close> builds holds every edge in both directions.\<close>

lemma build_loop_spec:
  assumes "\<forall>e \<in> set rows. fst e \<in> dom adj0 \<and> fst (snd e) \<in> dom adj0"
  shows "\<exists>adj'. build_loop rows (el, adj0) = Inr (el @ rows, adj') \<and> dom adj' = dom adj0 \<and>
           (\<forall>u. set (adj_get adj' u) =
                 set (adj_get adj0 u) \<union> {(v, w). (u, v, w) \<in> set rows \<or> (v, u, w) \<in> set rows})"
  using assms
proof (induction rows arbitrary: el adj0)
  case Nil
  show ?case by simp
next
  case (Cons e rows)
  obtain s d w where e: "e = (s, d, w)" by (cases e)
  from Cons.prems e obtain ns where ns: "adj0 s = Some ns" by auto
  let ?adj1 = "adj0(s \<mapsto> ns @ [(d, w)])"
  from Cons.prems e have "d \<in> dom ?adj1" by auto
  then obtain ms where ms: "?adj1 d = Some ms" by (meson domD)
  let ?adj2 = "?adj1(d \<mapsto> ms @ [(s, w)])"
  have dom2: "dom ?adj2 = dom adj0" using ns ms by (auto split: if_splits)
  have "\<forall>e \<in> set rows. fst e \<in> dom ?adj2 \<and> fst (snd e) \<in> dom ?adj2"
    using Cons.prems unfolding dom2 by simp
  from Cons.IH [OF this, of "el @ [(s, d, w)]"] obtain adj' where adj':
    "build_loop rows (el @ [(s, d, w)], ?adj2) = Inr ((el @ [(s, d, w)]) @ rows, adj')"
    "dom adj' = dom ?adj2"
    "\<And>u. set (adj_get adj' u) =
          set (adj_get ?adj2 u) \<union> {(v, w). (u, v, w) \<in> set rows \<or> (v, u, w) \<in> set rows}"
    by blast
  have step: "build_loop (e # rows) (el, adj0) = build_loop rows (el @ [(s, d, w)], ?adj2)"
    using ns ms by (simp add: e Let_def)
  have get2: "set (adj_get ?adj2 u) =
      set (adj_get adj0 u) \<union> {(v, c). (u, v, c) = (s, d, w) \<or> (v, u, c) = (s, d, w)}" for u
    using ns ms by (auto simp: adj_get_def split: if_splits)
  have "\<forall>u. set (adj_get adj' u) =
      set (adj_get adj0 u) \<union> {(v, c). (u, v, c) \<in> set (e # rows) \<or> (v, u, c) \<in> set (e # rows)}"
    unfolding adj'(3) get2 by (auto simp: e)
  with step adj'(1,2) dom2 show ?case by (simp add: e)
qed

lemma build_graph_spec:
  assumes "wf_edges V (set es)"
  shows "\<exists>adj. build_graph V es = Inr (es, adj) \<and> adj_edges adj = und (set es)"
proof -
  let ?adj0 = "\<lambda>i. if 0 \<le> i \<and> i < V then Some [] else None"
  have d: "dom ?adj0 = {0..<V}" by (auto simp: dom_def)
  have "\<forall>e \<in> set es. fst e \<in> dom ?adj0 \<and> fst (snd e) \<in> dom ?adj0"
    unfolding d using assms by (auto simp: wf_edges_def)
  from build_loop_spec [OF this, of "[]"] obtain adj' where adj':
    "build_loop es ([], ?adj0) = Inr (es, adj')"
    "\<And>u. set (adj_get adj' u) =
          set (adj_get ?adj0 u) \<union> {(v, w). (u, v, w) \<in> set es \<or> (v, u, w) \<in> set es}"
    by auto
  have "adj_get ?adj0 u = []" for u by (simp add: adj_get_def)
  then have "adj_edges adj' = und (set es)"
    unfolding adj_edges_def und_def adj'(2) by auto
  with adj'(1) show ?thesis by (auto simp: build_graph_def)
qed

lemma und_und [simp]: "und (und A) = und A"
  by (auto simp: und_def)

lemma wf_edges_und: "wf_edges V (und A) \<longleftrightarrow> wf_edges V A"
  by (fastforce simp: wf_edges_def und_def)

lemma wf_adj_und:
  assumes "wf_edges V A" and "adj_edges adj = und A"
  shows "wf_adj V adj"
proof -
  have "wf_edges V (adj_edges adj)" using assms by (simp add: wf_edges_und)
  moreover have "\<forall>u v w. (u, v, w) \<in> adj_edges adj \<longrightarrow> (v, u, w) \<in> adj_edges adj"
    unfolding assms(2) by (auto simp: und_def)
  ultimately show ?thesis by (simp add: wf_adj_def)
qed

lemma connected_graph_und [simp]: "connected_graph V (und A) \<longleftrightarrow> connected_graph V A"
  by (simp add: connected_graph_def)

lemma spanning_und [simp]: "spanning V (und A) T \<longleftrightarrow> spanning V A T"
  by (simp add: spanning_def)

lemma promising_und [simp]: "promising V (und A) F \<longleftrightarrow> promising V A F"
  by (simp add: promising_def)

section \<open>The two scripts' versions of Kruskal's algorithm agree\<close>






section \<open>Agreement of the engines\<close>

lemma edge_weight_triple: "edge_weight (u, v, w) = w"
  by (simp add: edge_weight_def)








lemma cost_mset: "cost (mset xs) = sum_list (map edge_weight xs)"
  by (simp add: cost_def flip: sum_mset_sum_list)

text \<open>
  With exact addition the two engines agree: on a connected graph with \<open>V \<ge> 1\<close> vertices
  whose endpoints are vertex indices, both return \<open>V - 1\<close> edges of the graph, and both
  selections are minimum spanning trees, so the two sums of weights are equal.
\<close>

lemma engines_agree_exact:
  assumes V: "1 \<le> V" and wf: "wf_edges V (set es)" and conn: "connected_graph V (set es)"
  shows "\<exists>c sel adj c' sel'.
           kruskals_mst V es = Some (Inr (c, sel)) \<and>
           build_graph V es = Inr (es, adj) \<and> prims_mst V adj = (c', sel') \<and>
           c = c' \<and> c = sum_list (map edge_weight sel) \<and>
           c' = sum_list (map edge_weight sel') \<and>
           int (length sel) = V - 1 \<and> int (length sel') = V - 1 \<and>
           set sel \<subseteq> set es \<and> set sel' \<subseteq> und (set es)"
proof -
  let ?E = "set es"
  from V have "0 \<le> V" by simp
  from kruskals_run_correct [OF this wf] obtain st where st:
    "kruskals_run V es = Some (Inr st)" "kruskal_inv V ?E st"
    "int (length (mst_edges st)) = V - 1 \<or> covered ?E (set (mst_edges st))"
    by blast
  have k: "kruskals_mst V es = Some (Inr (mst_cost st, mst_edges st))"
    using st(1) by (simp add: kruskals_mst_def)
  from kruskal_final(2) [OF st(2) V st(3)] conn
  have klen: "int (length (mst_edges st)) = V - 1" by simp
  from kruskal_final(3) [OF st(2) V st(3) klen]
  have kconn: "connected_graph V (set (mst_edges st))" .
  from st(2) have kE: "set (mst_edges st) \<subseteq> ?E"
    and kpr: "promising V ?E (mset (mst_edges st))"
    and kcost: "mst_cost st = sum_list (map edge_weight (mst_edges st))"
    by (simp_all add: kruskal_inv_def)
  have ksp: "spanning V ?E (mset (mst_edges st))"
    using kE klen kconn by (auto simp: spanning_def und_def)
  from build_graph_spec [OF wf] obtain adj where adj:
    "build_graph V es = Inr (es, adj)" "adj_edges adj = und ?E" by blast
  have wfa: "wf_adj V adj" using wf adj(2) by (rule wf_adj_und)
  let ?pt = "prims_run V adj"
  from prims_run_correct [OF wfa V] have pinv: "prim_full_inv V adj ?pt"
    and exit: "min_heap ?pt = [] \<or> V \<le> int (fcard (visited ?pt))" by auto
  have p: "prims_mst V adj = (mst_cost ?pt, mst_edges ?pt)"
    using V by (simp add: prims_mst_def Let_def)
  from prim_final(2) [OF wfa V pinv exit] conn adj(2)
  have plen: "int (length (mst_edges ?pt)) = V - 1" by simp
  from prim_final(3) [OF wfa V pinv exit plen]
  have pconn: "connected_graph V (set (mst_edges ?pt))" .
  from pinv adj(2) have pE: "set (mst_edges ?pt) \<subseteq> und ?E"
    and ppr: "promising V ?E (mset (mst_edges ?pt))"
    and pcost: "mst_cost ?pt = sum_list (map edge_weight (mst_edges ?pt))"
    by (simp_all add: prim_full_inv_def prim_inv_def)
  have psp: "spanning V ?E (mset (mst_edges ?pt))"
    using pE plen pconn by (simp add: spanning_def)
  have "cost (mset (mst_edges st)) \<le> cost (mset (mst_edges ?pt))"
    using kpr ksp psp by (rule promising_minimal)
  moreover have "cost (mset (mst_edges ?pt)) \<le> cost (mset (mst_edges st))"
    using ppr psp ksp by (rule promising_minimal)
  ultimately have "mst_cost st = mst_cost ?pt"
    unfolding cost_mset using kcost pcost by simp
  with k adj(1) p klen plen kcost pcost kE pE show ?thesis by simp
qed

lemma connected_from_zero:
  assumes "\<And>a. 0 \<le> a \<Longrightarrow> a < V \<Longrightarrow> (0, a) \<in> (adj_rel A)\<^sup>*"
  shows "connected_graph V A"
  unfolding connected_graph_def
proof (intro allI impI)
  fix a b assume "0 \<le> a \<and> a < V \<and> 0 \<le> b \<and> b < V"
  then have "(0, a) \<in> (adj_rel A)\<^sup>*" "(0, b) \<in> (adj_rel A)\<^sup>*" using assms by auto
  from adj_rtrancl_sym [OF this(1)] this(2) show "(a, b) \<in> (adj_rel A)\<^sup>*"
    by (rule rtrancl_trans)
qed

subsection \<open>Rounding\<close>

lemma round_half_even_int [simp]: "round_half_even (of_int n) = n"
  by (simp add: round_half_even_def)

lemma round_double_at:
  assumes "2 powr of_int k \<le> \<bar>x\<bar>" and "\<bar>x\<bar> < 2 powr of_int (k + 1)"
  shows "round_double x = of_int (round_half_even (x / 2 powr of_int (k - 52))) * 2 powr of_int (k - 52)"
proof -
  have "0 < (2::real) powr of_int k" by simp
  with assms(1) have pos: "0 < \<bar>x\<bar>" by linarith
  then have "x \<noteq> 0" by simp
  moreover have "\<lfloor>log 2 \<bar>x\<bar>\<rfloor> = k"
    using assms pos by (simp add: floor_log_eq_powr_iff)
  ultimately show ?thesis by (simp add: round_double_def Let_def)
qed

lemma round_double_multiple:
  assumes "2 powr of_int k \<le> \<bar>x\<bar>" and "\<bar>x\<bar> < 2 powr of_int (k + 1)"
    and "x = of_int m * 2 powr of_int (k - 52)"
  shows "round_double x = x"
proof -
  have "x / 2 powr of_int (k - 52) = of_int m" using assms(3) by simp
  with round_double_at [OF assms(1,2)] assms(3) show ?thesis by simp
qed

lemma two_powr_nat: "(2::real) powr of_int (int n) = 2 ^ n"
  by (simp add: powr_realpow)

lemma two_powr_neg: "(2::real) powr of_int (- int n) = 1 / 2 ^ n"
  by (simp add: powr_minus_divide powr_realpow)

text \<open>Integers up to \<open>2^53\<close> in absolute value are doubles.\<close>

lemma round_double_int:
  assumes "\<bar>n\<bar> \<le> 2 ^ 53"
  shows "round_double (of_int n) = of_int n"
proof (cases "n = 0")
  case True
  then show ?thesis by (simp add: round_double_def)
next
  case False
  let ?x = "of_int n :: real"
  have ax: "\<bar>?x\<bar> = of_int \<bar>n\<bar>" by simp
  have "1 \<le> \<bar>n\<bar>" using False by simp
  then have x1: "1 \<le> \<bar>?x\<bar>" unfolding ax by (simp only: of_int_1_le_iff)
  have "(of_int \<bar>n\<bar> :: real) \<le> of_int (2 ^ 53)" using assms by (simp only: of_int_le_iff)
  then have x2: "\<bar>?x\<bar> \<le> 2 ^ 53" unfolding ax by simp
  define k where "k = \<lfloor>log 2 \<bar>?x\<bar>\<rfloor>"
  have pos: "0 < \<bar>?x\<bar>" using x1 by linarith
  have k: "2 powr of_int k \<le> \<bar>?x\<bar>" "\<bar>?x\<bar> < 2 powr of_int (k + 1)"
    using floor_log_eq_powr_iff [of "\<bar>?x\<bar>" 2 k] pos unfolding k_def by auto
  have k0: "0 \<le> k" unfolding k_def using x1 by (simp add: zero_le_log_cancel_iff)
  have "(2::real) powr of_int k \<le> 2 powr of_int (int 53)"
    using k(1) x2 unfolding two_powr_nat by linarith
  then have "(of_int k :: real) \<le> of_int (int 53)"
    by (subst (asm) powr_le_cancel_iff) simp_all
  then have k53: "k \<le> 53" by linarith
  show ?thesis
  proof (cases "k = 53")
    case True
    have "(2::real) powr of_int k = 2 ^ 53" unfolding True using two_powr_nat [of 53] by simp
    with k(1) x2 have "\<bar>?x\<bar> = 2 ^ 53" by linarith
    then have "(of_int \<bar>n\<bar> :: real) = of_int (2 ^ 53)" unfolding ax by simp
    then have "\<bar>n\<bar> = 2 ^ 53" by (simp only: of_int_eq_iff)
    then have n: "n = 2 ^ 53 \<or> n = - (2 ^ 53)" by linarith
    have q: "(2::real) powr of_int (k - 52) = 2" unfolding True by simp
    from n have "?x = of_int (n div 2) * 2 powr of_int (k - 52)"
      unfolding q by auto
    with k show ?thesis by (rule round_double_multiple)
  next
    case False
    with k53 k0 have j: "k - 52 = - int (nat (52 - k))" by simp
    have q: "(2::real) powr of_int (k - 52) = 1 / 2 ^ nat (52 - k)"
      unfolding j by (rule two_powr_neg)
    have "?x = of_int (n * 2 ^ nat (52 - k)) * 2 powr of_int (k - 52)"
      unfolding q by simp
    with k show ?thesis by (rule round_double_multiple)
  qed
qed

lemma fadd_exact:
  assumes "a \<in> \<int>" and "b \<in> \<int>" and "\<bar>a + b\<bar> \<le> 2 ^ 53"
  shows "fadd a b = a + b"
proof -
  from assms(1,2) obtain m n where mn: "a = of_int m" "b = of_int n" by (auto simp: Ints_def)
  then have s: "a + b = of_int (m + n)" by simp
  with assms(3) have "(of_int \<bar>m + n\<bar> :: real) \<le> of_int (2 ^ 53)" by simp
  then have "\<bar>m + n\<bar> \<le> 2 ^ 53" by (simp only: of_int_le_iff)
  from round_double_int [OF this] s show ?thesis by (simp add: fadd_def)
qed

text \<open>Two sums beyond \<open>2^53\<close>: one is a double, the other lies half way between two.\<close>

lemma fadd_big_even: "fadd 2 (10 ^ 16) = 10 ^ 16 + 2"
proof -
  have "round_double (10 ^ 16 + 2) = 10 ^ 16 + 2"
  proof (rule round_double_multiple [where k = 53 and m = "5000000000000001"])
    show "2 powr of_int 53 \<le> \<bar>10 ^ 16 + 2 :: real\<bar>" using two_powr_nat [of 53] by simp
    show "\<bar>10 ^ 16 + 2 :: real\<bar> < 2 powr of_int (53 + 1)" using two_powr_nat [of 54] by simp
    show "(10 ^ 16 + 2 :: real) = of_int 5000000000000001 * 2 powr of_int (53 - 52)" by simp
  qed
  then show ?thesis by (simp add: fadd_def)
qed

lemma fadd_big_tie: "fadd (10 ^ 16) 1 = 10 ^ 16"
proof -
  have 1: "2 powr of_int 53 \<le> \<bar>10 ^ 16 + 1 :: real\<bar>" using two_powr_nat [of 53] by simp
  have 2: "\<bar>10 ^ 16 + 1 :: real\<bar> < 2 powr of_int (53 + 1)" using two_powr_nat [of 54] by simp
  have q: "(2::real) powr of_int (53 - 52) = 2" by simp
  have f: "\<lfloor>(10 ^ 16 + 1) / 2 :: real\<rfloor> = 5000000000000000"
    by (rule floor_unique) simp_all
  have "round_half_even ((10 ^ 16 + 1) / 2) = 5000000000000000"
    unfolding round_half_even_def f by simp
  with round_double_at [OF 1 2] show ?thesis unfolding q by (simp add: fadd_def)
qed

lemma fadd_small: "fadd 0 1 = 1" "fadd 1 1 = 2" "fadd 0 (10 ^ 16) = 10 ^ 16"
proof -
  show "fadd 0 1 = 1" "fadd 1 1 = 2" by (simp_all add: fadd_exact)
  have "round_double (10 ^ 16) = 10 ^ 16"
  proof (rule round_double_multiple [where k = 53 and m = "5000000000000000"])
    show "2 powr of_int 53 \<le> \<bar>10 ^ 16 :: real\<bar>" using two_powr_nat [of 53] by simp
    show "\<bar>10 ^ 16 :: real\<bar> < 2 powr of_int (53 + 1)" using two_powr_nat [of 54] by simp
    show "(10 ^ 16 :: real) = of_int 5000000000000000 * 2 powr of_int (53 - 52)" by simp
  qed
  then show "fadd 0 (10 ^ 16) = 10 ^ 16" by (simp add: fadd_def)
qed

lemma round_half_even_error: "\<bar>of_int (round_half_even y) - y\<bar> \<le> 1 / 2"
proof -
  define f where "f = \<lfloor>y\<rfloor>"
  define d where "d = y - of_int f"
  have d: "0 \<le> d" "d < 1" unfolding d_def f_def by linarith+
  have r: "round_half_even y =
      (if d < 1 / 2 then f else if 1 / 2 < d then f + 1 else if even f then f else f + 1)"
    by (simp add: round_half_even_def Let_def f_def d_def)
  have "\<bar>of_int (round_half_even y) - (of_int f + d)\<bar> \<le> 1 / 2"
    unfolding r using d by (auto simp: abs_if)
  then show ?thesis by (simp add: d_def)
qed

lemma round_double_error: "\<bar>round_double x - x\<bar> \<le> unit_roundoff * \<bar>x\<bar>"
proof (cases "x = 0")
  case True
  then show ?thesis by (simp add: round_double_def)
next
  case False
  define e where "e = \<lfloor>log 2 \<bar>x\<bar>\<rfloor>"
  define q :: real where "q = 2 powr of_int (e - 52)"
  have q: "0 < q" by (simp add: q_def)
  from False have "0 < \<bar>x\<bar>" by simp
  with e_def have lo: "2 powr of_int e \<le> \<bar>x\<bar>"
    using floor_log_eq_powr_iff [of "\<bar>x\<bar>" 2 e] by simp
  have rd: "round_double x = of_int (round_half_even (x / q)) * q"
    using False by (simp add: round_double_def Let_def e_def q_def)
  have "round_double x - x = (of_int (round_half_even (x / q)) - x / q) * q"
    using q by (simp add: rd algebra_simps)
  then have "\<bar>round_double x - x\<bar> = \<bar>of_int (round_half_even (x / q)) - x / q\<bar> * q"
    using q by (simp add: abs_mult)
  also have "\<dots> \<le> 1 / 2 * q"
    using round_half_even_error [of "x / q"] q by (intro mult_right_mono) simp_all
  also have "1 / 2 * q = unit_roundoff * 2 powr of_int e"
  proof -
    have "q = 2 powr of_int e / 2 powr of_int (int 52)"
      unfolding q_def by (simp add: powr_diff)
    then have "q = 2 powr of_int e / 2 ^ 52" unfolding two_powr_nat by simp
    then show ?thesis by (simp add: unit_roundoff_def)
  qed
  also have "\<dots> \<le> unit_roundoff * \<bar>x\<bar>"
    using lo by (intro mult_left_mono) (simp_all add: unit_roundoff_def)
  finally show ?thesis .
qed

lemma fadd_bounds:
  assumes "0 \<le> a + b"
  shows "(1 - unit_roundoff) * (a + b) \<le> fadd a b" "fadd a b \<le> (1 + unit_roundoff) * (a + b)"
proof -
  from round_double_error [of "a + b"] assms
  have "\<bar>fadd a b - (a + b)\<bar> \<le> unit_roundoff * (a + b)" by (simp add: fadd_def)
  then show "(1 - unit_roundoff) * (a + b) \<le> fadd a b"
    "fadd a b \<le> (1 + unit_roundoff) * (a + b)"
    by (simp_all add: algebra_simps abs_le_iff)
qed

lemma unit_roundoff_range: "0 \<le> unit_roundoff" "unit_roundoff \<le> 1"
  by (simp_all add: unit_roundoff_def)

lemma foldl_fadd_bounds:
  assumes "\<forall>w \<in> set ws. 0 \<le> w" and "0 \<le> A"
    and "(1 - unit_roundoff) ^ k * A \<le> a" and "a \<le> (1 + unit_roundoff) ^ k * A"
  shows "(1 - unit_roundoff) ^ (k + length ws) * (A + sum_list ws) \<le> foldl fadd a ws \<and>
         foldl fadd a ws \<le> (1 + unit_roundoff) ^ (k + length ws) * (A + sum_list ws)"
  using assms
proof (induction ws arbitrary: a A k)
  case Nil
  then show ?case by simp
next
  case (Cons w ws)
  let ?u = unit_roundoff
  from Cons.prems(1) have w: "0 \<le> w" by simp
  have lo1: "0 \<le> (1 - ?u) ^ k" "(1 - ?u) ^ k \<le> 1"
    using unit_roundoff_range by (simp_all add: power_le_one)
  have hi1: "1 \<le> (1 + ?u) ^ k" using unit_roundoff_range by (simp add: one_le_power)
  from lo1(1) Cons.prems(2) have "0 \<le> (1 - ?u) ^ k * A" by simp
  with Cons.prems(3) have a: "0 \<le> a" by linarith
  with w have aw: "0 \<le> a + w" by simp
  have "(1 - ?u) ^ k * w \<le> 1 * w" using lo1(2) w by (rule mult_right_mono)
  with Cons.prems(3) have "(1 - ?u) ^ k * (A + w) \<le> a + w" by (simp add: algebra_simps)
  then have "(1 - ?u) * ((1 - ?u) ^ k * (A + w)) \<le> (1 - ?u) * (a + w)"
    using unit_roundoff_range by (intro mult_left_mono) simp_all
  with fadd_bounds(1) [OF aw] have l: "(1 - ?u) ^ Suc k * (A + w) \<le> fadd a w"
    by (simp add: mult.assoc)
  have "1 * w \<le> (1 + ?u) ^ k * w" using hi1 w by (rule mult_right_mono)
  with Cons.prems(4) have "a + w \<le> (1 + ?u) ^ k * (A + w)" by (simp add: algebra_simps)
  then have "(1 + ?u) * (a + w) \<le> (1 + ?u) * ((1 + ?u) ^ k * (A + w))"
    using unit_roundoff_range by (intro mult_left_mono) simp_all
  with fadd_bounds(2) [OF aw] have h: "fadd a w \<le> (1 + ?u) ^ Suc k * (A + w)"
    by (simp add: mult.assoc)
  have "\<forall>w \<in> set ws. 0 \<le> w" using Cons.prems(1) by simp
  moreover have "0 \<le> A + w" using Cons.prems(2) w by simp
  ultimately have "(1 - ?u) ^ (Suc k + length ws) * (A + w + sum_list ws)
        \<le> foldl fadd (fadd a w) ws \<and>
      foldl fadd (fadd a w) ws \<le> (1 + ?u) ^ (Suc k + length ws) * (A + w + sum_list ws)"
    using l h by (rule Cons.IH)
  then show ?case by (simp add: add.assoc)
qed

lemma float_sum_bounds:
  assumes "\<forall>w \<in> set ws. 0 \<le> w"
  shows "(1 - unit_roundoff) ^ length ws * sum_list ws \<le> float_sum ws"
    "float_sum ws \<le> (1 + unit_roundoff) ^ length ws * sum_list ws"
  using foldl_fadd_bounds [OF assms, of 0 0 0] by (simp_all add: float_sum_def)

lemma power_roundoff_bounds:
  assumes "real n \<le> 2 ^ 52"
  shows "1 - real n * unit_roundoff \<le> (1 - unit_roundoff) ^ n"
    "(1 + unit_roundoff) ^ n \<le> 1 + 2 * real n * unit_roundoff"
proof -
  let ?u = unit_roundoff
  have "1 + real n * (- ?u) \<le> (1 + (- ?u)) ^ n"
    by (rule Bernoulli_inequality) (simp add: unit_roundoff_def)
  then show lo: "1 - real n * ?u \<le> (1 - ?u) ^ n" by simp
  have nu: "real n * ?u \<le> 1 / 2" using assms by (simp add: unit_roundoff_def)
  have "(1 + ?u) * (1 - ?u) \<le> 1" by (simp add: algebra_simps)
  moreover have "0 \<le> (1 + ?u) * (1 - ?u)" using unit_roundoff_range by simp
  ultimately have "((1 + ?u) * (1 - ?u)) ^ n \<le> 1" by (simp add: power_le_one)
  then have p: "(1 + ?u) ^ n * (1 - ?u) ^ n \<le> 1" by (simp add: power_mult_distrib)
  have pos: "0 \<le> (1 + ?u) ^ n" using unit_roundoff_range by simp
  have "(1 + ?u) ^ n * (1 - real n * ?u) \<le> (1 + ?u) ^ n * (1 - ?u) ^ n"
    using lo pos by (rule mult_left_mono)
  with p have q: "(1 + ?u) ^ n * (1 - real n * ?u) \<le> 1" by linarith
  have d: "0 < 1 - real n * ?u" using nu by linarith
  from q d have "(1 + ?u) ^ n \<le> 1 / (1 - real n * ?u)" by (simp add: pos_le_divide_eq)
  also have "\<dots> \<le> 1 + 2 * real n * ?u"
  proof -
    have "0 \<le> real n * ?u * (1 - 2 * (real n * ?u))"
      using nu unit_roundoff_range by (intro mult_nonneg_nonneg) simp_all
    then have "1 \<le> (1 + 2 * real n * ?u) * (1 - real n * ?u)" by (simp add: algebra_simps)
    with d show ?thesis by (simp add: pos_divide_le_eq)
  qed
  finally show "(1 + ?u) ^ n \<le> 1 + 2 * real n * ?u" .
qed

lemma float_sum_close:
  assumes "\<forall>w \<in> set ws. 0 \<le> w" and "\<forall>w \<in> set ws'. 0 \<le> w"
    and "length ws = n" and "length ws' = n" and "sum_list ws = S" and "sum_list ws' = S"
    and "real n \<le> 2 ^ 52"
  shows "\<bar>float_sum ws - float_sum ws'\<bar> \<le> 3 * real n * unit_roundoff * S"
proof -
  let ?u = unit_roundoff
  have S: "0 \<le> S" using assms(1,5) by (auto intro: sum_list_nonneg)
  have lo: "(1 - real n * ?u) * S \<le> (1 - ?u) ^ n * S"
    using power_roundoff_bounds(1) [OF assms(7)] S by (rule mult_right_mono)
  have hi: "(1 + ?u) ^ n * S \<le> (1 + 2 * real n * ?u) * S"
    using power_roundoff_bounds(2) [OF assms(7)] S by (rule mult_right_mono)
  from float_sum_bounds [OF assms(1)] assms(3,5) lo hi
  have a: "(1 - real n * ?u) * S \<le> float_sum ws" "float_sum ws \<le> (1 + 2 * real n * ?u) * S"
    by auto
  from float_sum_bounds [OF assms(2)] assms(4,6) lo hi
  have b: "(1 - real n * ?u) * S \<le> float_sum ws'" "float_sum ws' \<le> (1 + 2 * real n * ?u) * S"
    by auto
  from a b show ?thesis by (simp add: algebra_simps abs_le_iff)
qed

subsection \<open>The engines with rounded addition\<close>

text \<open>
  An engine with rounded addition selects the same edges as the engine with exact addition;
  the cost it returns is the rounded left-to-right sum of their weights.
\<close>

lemma float_sum_snoc: "float_sum (ws @ [w]) = fadd (float_sum ws) w"
  by (simp add: float_sum_def)

lemma float_sum_Nil [simp]: "float_sum [] = 0"
  by (simp add: float_sum_def)

lemma kruskal_loop_float_sim:
  "kruskal_loop_float V xs (with_float_cost st) =
   map_option (map_sum id with_float_cost) (kruskal_loop V xs st)"
proof (induction xs arbitrary: st)
  case Nil
  show ?case by simp
next
  case (Cons e xs)
  obtain x y c where e: "e = (x, y, c)" by (cases e)
  have d: "dsu (with_float_cost st) = dsu st" by (simp add: with_float_cost_def)
  show ?case
  proof (cases "union (dsu st) x y")
    case None
    then show ?thesis by (simp add: e d)
  next
    case (Some res)
    show ?thesis
    proof (cases res)
      case (Inl err)
      with Some show ?thesis by (simp add: e d)
    next
      case (Inr p)
      obtain s' merged where p: "p = (s', merged)" by (cases p)
      show ?thesis
      proof (cases merged)
        case False
        have "with_float_cost st\<lparr>dsu := s'\<rparr> = with_float_cost (st\<lparr>dsu := s'\<rparr>)"
          by (simp add: with_float_cost_def)
        with Cons.IH [of "st\<lparr>dsu := s'\<rparr>"] Some Inr p False show ?thesis
          by (simp add: e d)
      next
        case True
        let ?st1 = "st\<lparr>dsu := s', mst_cost := mst_cost st + c,
                        mst_edges := mst_edges st @ [(x, y, c)]\<rparr>"
        have eq: "(with_float_cost st)\<lparr>dsu := s',
              mst_cost := fadd (mst_cost (with_float_cost st)) c,
              mst_edges := mst_edges (with_float_cost st) @ [(x, y, c)]\<rparr> = with_float_cost ?st1"
          by (simp add: with_float_cost_def float_sum_snoc edge_weight_triple)
        have len: "length (mst_edges (with_float_cost ?st1)) = length (mst_edges ?st1)"
          by (simp add: with_float_cost_def)
        from Cons.IH [of ?st1] Some Inr p True eq len show ?thesis
          by (simp add: e d Let_def)
      qed
    qed
  qed
qed

lemma kruskals_mst_float_sim:
  "kruskals_mst_float V es =
   map_option (map_sum id (\<lambda>(c, sel). (float_sum (map edge_weight sel), sel)))
     (kruskals_mst V es)"
proof -
  let ?st0 = "\<lparr>mst_cost = 0, mst_edges = [], edge_list = es, dsu = create V\<rparr>"
  have "with_float_cost ?st0 = ?st0" by (simp add: with_float_cost_def)
  with kruskal_loop_float_sim [of V _ ?st0] show ?thesis
    by (simp add: kruskals_mst_float_def kruskals_run_float_def kruskals_mst_def kruskals_run_def
        option.map_comp sum.map_comp comp_def with_float_cost_def)
qed

lemma prim_loop_float_stop:
  "\<not> (min_heap st \<noteq> [] \<and> int (fcard (visited st)) < n) \<Longrightarrow> prim_loop_float n st = st"
  by (subst prim_loop_float.simps) auto

lemma prim_loop_float_visit:
  assumes "min_heap st \<noteq> []" "int (fcard (visited st)) < n"
    and "heappop (min_heap st) = ((weight, u, v), h)" and "v |\<notin>| visited st"
  shows "prim_loop_float n st =
     prim_loop_float n (st\<lparr>visited := finsert v (visited st),
                     mst_cost := fadd (mst_cost st) weight,
                     mst_edges := mst_edges st @ [(u, v, weight)],
                     min_heap := push_neighbors v (finsert v (visited st))
                                   (adj_get (adj_list st) v) h\<rparr>)"
  using assms by (subst prim_loop_float.simps) simp

lemma prim_loop_float_skip:
  assumes "min_heap st \<noteq> []" "int (fcard (visited st)) < n"
    and "heappop (min_heap st) = ((weight, u, v), h)" and "v |\<in>| visited st"
  shows "prim_loop_float n st = prim_loop_float n (st\<lparr>min_heap := h\<rparr>)"
  using assms by (subst prim_loop_float.simps) simp

lemma prim_loop_float_sim:
  "prim_loop_float n (with_float_cost st) = with_float_cost (prim_loop n st)"
proof (rule prim_loop_induct
    [where P = "\<lambda>st st'. prim_loop_float n (with_float_cost st) = with_float_cost st'"],
    goal_cases)
  case (1 st)
  note stop = this
  then have "\<not> (min_heap (with_float_cost st) \<noteq> [] \<and>
      int (fcard (visited (with_float_cost st))) < n)"
    by (simp add: with_float_cost_def)
  from prim_loop_float_stop [OF this] show ?case .
next
  case (2 st weight u v h st')
  note visit = this
  have a: "min_heap (with_float_cost st) \<noteq> []"
    "int (fcard (visited (with_float_cost st))) < n"
    "heappop (min_heap (with_float_cost st)) = ((weight, u, v), h)"
    "v |\<notin>| visited (with_float_cost st)"
    using visit(1-4) by (simp_all add: with_float_cost_def)
  have "(with_float_cost st)\<lparr>visited := finsert v (visited (with_float_cost st)),
          mst_cost := fadd (mst_cost (with_float_cost st)) weight,
          mst_edges := mst_edges (with_float_cost st) @ [(u, v, weight)],
          min_heap := push_neighbors v (finsert v (visited (with_float_cost st)))
                        (adj_get (adj_list (with_float_cost st)) v) h\<rparr> = with_float_cost st'"
    unfolding visit(5)
    by (simp add: with_float_cost_def float_sum_snoc edge_weight_triple)
  with prim_loop_float_visit [OF a] visit(6) show ?case by simp
next
  case (3 st weight u v h)
  note skip = this
  have a: "min_heap (with_float_cost st) \<noteq> []"
    "int (fcard (visited (with_float_cost st))) < n"
    "heappop (min_heap (with_float_cost st)) = ((weight, u, v), h)"
    "v |\<in>| visited (with_float_cost st)"
    using skip(1-4) by (simp_all add: with_float_cost_def)
  have "(with_float_cost st)\<lparr>min_heap := h\<rparr> = with_float_cost (st\<lparr>min_heap := h\<rparr>)"
    by (simp add: with_float_cost_def)
  with prim_loop_float_skip [OF a] skip(5) show ?case by simp
qed

lemma prims_mst_float_sim:
  "prims_mst_float V adj =
   (float_sum (map edge_weight (snd (prims_mst V adj))), snd (prims_mst V adj))"
proof (cases "V = 0")
  case True
  then show ?thesis by (simp add: prims_mst_float_def prims_mst_def)
next
  case False
  have "with_float_cost (prims_init adj) = prims_init adj"
    by (simp add: with_float_cost_def prims_init_def)
  with prim_loop_float_sim [of V "prims_init adj"]
  have "prims_run_float V adj = with_float_cost (prims_run V adj)"
    by (simp add: prims_run_float_def prims_run_def)
  with False show ?thesis
    by (simp add: prims_mst_float_def prims_mst_def Let_def with_float_cost_def)
qed

lemma foldl_fadd_exact:
  assumes "\<forall>w \<in> set ws. w \<in> \<int> \<and> 0 \<le> w \<and> w \<le> W"
    and "a \<in> \<int>" and "0 \<le> a" and "a + W * real (length ws) \<le> 2 ^ 53"
  shows "foldl fadd a ws = a + sum_list ws"
  using assms
proof (induction ws arbitrary: a)
  case Nil
  show ?case by simp
next
  case (Cons w ws)
  from Cons.prems(1) have w: "w \<in> \<int>" "0 \<le> w" "w \<le> W" by auto
  then have W: "0 \<le> W" by linarith
  have "W * real (length (w # ws)) = W + W * real (length ws)" by (simp add: algebra_simps)
  with Cons.prems(4) have b: "a + W + W * real (length ws) \<le> 2 ^ 53" by simp
  have "0 \<le> W * real (length ws)" using W by simp
  with b w Cons.prems(3) have "\<bar>a + w\<bar> \<le> 2 ^ 53" by linarith
  with Cons.prems(2) w(1) have f: "fadd a w = a + w" by (rule fadd_exact)
  have "foldl fadd (a + w) ws = a + w + sum_list ws"
  proof (rule Cons.IH)
    show "\<forall>w \<in> set ws. w \<in> \<int> \<and> 0 \<le> w \<and> w \<le> W" using Cons.prems(1) by simp
    show "a + w \<in> \<int>" using Cons.prems(2) w(1) by simp
    show "0 \<le> a + w" using Cons.prems(3) w(2) by simp
    show "a + w + W * real (length ws) \<le> 2 ^ 53" using b w(3) by linarith
  qed
  with f show ?case by simp
qed

lemma float_sum_exact:
  assumes "\<forall>w \<in> set ws. w \<in> \<int> \<and> 0 \<le> w \<and> w \<le> W" and "W * real (length ws) \<le> 2 ^ 53"
  shows "float_sum ws = sum_list ws"
  using foldl_fadd_exact [OF assms(1), of 0] assms(2) by (simp add: float_sum_def)

lemma und_weight:
  assumes "e \<in> und E"
  shows "\<exists>e' \<in> E. edge_weight e' = edge_weight e"
proof -
  obtain a b w where e: "e = (a, b, w)" by (cases e)
  with assms have "(a, b, w) \<in> E \<or> (b, a, w) \<in> E" by (simp add: und_def)
  then show ?thesis
  proof
    assume "(a, b, w) \<in> E"
    then show ?thesis unfolding e by (rule bexI [rotated]) (simp add: edge_weight_def)
  next
    assume "(b, a, w) \<in> E"
    then show ?thesis unfolding e by (rule bexI [rotated]) (simp add: edge_weight_def)
  qed
qed

lemma selected_weights:
  assumes "set sel \<subseteq> und (set es)" and "\<forall>e \<in> set es. P (edge_weight e)"
  shows "\<forall>w \<in> set (map edge_weight sel). P w"
proof
  fix w assume "w \<in> set (map edge_weight sel)"
  then obtain e where e: "e \<in> set sel" "w = edge_weight e" by auto
  with assms(1) have "e \<in> und (set es)" by auto
  from und_weight [OF this] obtain e' where "e' \<in> set es" "edge_weight e' = edge_weight e"
    by blast
  with assms(2) e(2) show "P w" by auto
qed

lemma subset_und: "A \<subseteq> und A"
  by (auto simp: und_def)

lemma float_sum_small_first:
  "float_sum [1, 1, 10000000000000000] = 10000000000000002"
proof -
  have "float_sum [1, 1, 10 ^ 16] = fadd (fadd (fadd 0 1) 1) (10 ^ 16)"
    by (simp add: float_sum_def)
  also have "\<dots> = 10 ^ 16 + 2" by (simp only: fadd_small fadd_big_even)
  finally show ?thesis by simp
qed

lemma float_sum_big_first:
  "float_sum [10000000000000000, 1, 1] = 10000000000000000"
proof -
  have "float_sum [10 ^ 16, 1, 1] = fadd (fadd (fadd 0 (10 ^ 16)) 1) 1"
    by (simp add: float_sum_def)
  also have "\<dots> = 10 ^ 16" by (simp only: fadd_small fadd_big_tie)
  finally show ?thesis by simp
qed

text \<open>
  Claim C1, amended. On every connected graph with \<open>V \<ge> 1\<close> vertices whose endpoints are
  vertex indices, Kruskal's algorithm on the edge list and Prim's algorithm on the adjacency
  list that \<open>main\<close> builds from the same edge list both return, each with exactly \<open>V - 1\<close>
  selected edges, and the two selections have the same exact sum of weights. The cost an
  engine returns is the sum of the weights of its selection, added in selection order with
  every addition rounded to a double (overflow aside). When no weight is negative and
  \<open>V - 1 \<le> 2^52\<close>, the two returned costs differ by at most \<open>3 (V - 1) 2^-53\<close> times
  that exact sum. When the weights are non-negative integers of at most \<open>W\<close> with
  \<open>W (V - 1) \<le> 2^53\<close>, no addition rounds and the two returned costs are equal.
\<close>

theorem engines_agree_float:
  assumes V: "1 \<le> V" and wf: "wf_edges V (set es)" and conn: "connected_graph V (set es)"
  shows "\<exists>c sel adj c' sel'.
           kruskals_mst_float V es = Some (Inr (c, sel)) \<and>
           build_graph V es = Inr (es, adj) \<and> prims_mst_float V adj = (c', sel') \<and>
           int (length sel) = V - 1 \<and> int (length sel') = V - 1 \<and>
           c = float_sum (map edge_weight sel) \<and> c' = float_sum (map edge_weight sel') \<and>
           sum_list (map edge_weight sel) = sum_list (map edge_weight sel') \<and>
           ((\<forall>e \<in> set es. 0 \<le> edge_weight e) \<and> V - 1 \<le> 2 ^ 52 \<longrightarrow>
              \<bar>c - c'\<bar> \<le> 3 * real_of_int (V - 1) * unit_roundoff *
                            sum_list (map edge_weight sel)) \<and>
           ((\<forall>e \<in> set es. edge_weight e \<in> \<int> \<and> 0 \<le> edge_weight e \<and> edge_weight e \<le> W) \<and>
            W * real_of_int (V - 1) \<le> 2 ^ 53 \<longrightarrow>
              c = c' \<and> c = sum_list (map edge_weight sel))"
proof -
  from engines_agree_exact [OF V wf conn] obtain c sel adj c' sel' where x:
    "kruskals_mst V es = Some (Inr (c, sel))" "build_graph V es = Inr (es, adj)"
    "prims_mst V adj = (c', sel')"
    "sum_list (map edge_weight sel) = sum_list (map edge_weight sel')"
    "int (length sel) = V - 1" "int (length sel') = V - 1"
    "set sel \<subseteq> set es" "set sel' \<subseteq> und (set es)"
    by auto
  let ?ws = "map edge_weight sel" and ?ws' = "map edge_weight sel'"
  have k: "kruskals_mst_float V es = Some (Inr (float_sum ?ws, sel))"
    using x(1) by (simp add: kruskals_mst_float_sim)
  have p: "prims_mst_float V adj = (float_sum ?ws', sel')"
    using x(3) by (simp add: prims_mst_float_sim)
  from x(7) have sub: "set sel \<subseteq> und (set es)" using subset_und by blast
  have n: "length ?ws = nat (V - 1)" "length ?ws' = nat (V - 1)" using x(5,6) by simp_all
  have close: "\<bar>float_sum ?ws - float_sum ?ws'\<bar> \<le>
      3 * real_of_int (V - 1) * unit_roundoff * sum_list ?ws"
    if nn: "\<forall>e \<in> set es. 0 \<le> edge_weight e" and small: "V - 1 \<le> 2 ^ 52"
  proof -
    have a: "\<forall>w \<in> set ?ws. 0 \<le> w" using sub nn by (rule selected_weights)
    have b: "\<forall>w \<in> set ?ws'. 0 \<le> w" using x(8) nn by (rule selected_weights)
    have "real (nat (V - 1)) = real_of_int (V - 1)" using V by simp
    moreover have "real_of_int (V - 1) \<le> real_of_int (2 ^ 52)"
      using small by (subst of_int_le_iff)
    ultimately have c: "real (nat (V - 1)) \<le> 2 ^ 52" by simp
    from float_sum_close [OF a b n refl x(4) [symmetric] c] V show ?thesis by simp
  qed
  have exact: "float_sum ?ws = float_sum ?ws' \<and> float_sum ?ws = sum_list ?ws"
    if int: "\<forall>e \<in> set es. edge_weight e \<in> \<int> \<and> 0 \<le> edge_weight e \<and> edge_weight e \<le> W"
      and small: "W * real_of_int (V - 1) \<le> 2 ^ 53"
  proof -
    have a: "\<forall>w \<in> set ?ws. w \<in> \<int> \<and> 0 \<le> w \<and> w \<le> W" using sub int by (rule selected_weights)
    have b: "\<forall>w \<in> set ?ws'. w \<in> \<int> \<and> 0 \<le> w \<and> w \<le> W"
      using x(8) int by (rule selected_weights)
    have l: "W * real (length ?ws) \<le> 2 ^ 53" "W * real (length ?ws') \<le> 2 ^ 53"
      using small V unfolding n by simp_all
    from float_sum_exact [OF a l(1)] float_sum_exact [OF b l(2)] x(4) show ?thesis by simp
  qed
  from k x(2) p x(5,6) x(4) close exact show ?thesis by blast
qed

text \<open>
  Claim C1 as stated covers every connected graph. With \<open>V = 0\<close> and no edges the graph is
  connected and both engines return cost 0 and no edges, not \<open>V - 1 = -1\<close> of them. On the
  path 0 - 1 - 2 - 3 with the weights \<open>1e16\<close>, 1, 1, all of them doubles, Kruskal's algorithm
  adds 1, 1, \<open>1e16\<close> and returns \<open>1e16 + 2\<close>; Prim's algorithm adds \<open>1e16\<close>, 1, 1, where
  each \<open>+ 1\<close> is a tie that rounds back to \<open>1e16\<close>, and returns \<open>1e16\<close>. The two costs
  differ by 2.
\<close>

theorem engines_agree_counterexample:
  "connected_graph 0 (set []) \<and>
   kruskals_mst_float 0 [] = Some (Inr (0, [])) \<and>
   (case build_graph 0 [] of
      Inl e \<Rightarrow> False
    | Inr (el, adj) \<Rightarrow> el = [] \<and> prims_mst_float 0 adj = (0, [])) \<and>
   int (length ([] :: edge list)) \<noteq> 0 - 1 \<and>
   wf_edges 4 (set [(0, 1, 10000000000000000), (1, 2, 1), (2, 3, 1)]) \<and>
   connected_graph 4 (set [(0, 1, 10000000000000000), (1, 2, 1), (2, 3, 1)]) \<and>
   kruskals_mst_float 4 [(0, 1, 10000000000000000), (1, 2, 1), (2, 3, 1)] =
     Some (Inr (10000000000000002, [(1, 2, 1), (2, 3, 1), (0, 1, 10000000000000000)])) \<and>
   (case build_graph 4 [(0, 1, 10000000000000000), (1, 2, 1), (2, 3, 1)] of
      Inl e \<Rightarrow> False
    | Inr (el, adj) \<Rightarrow>
        el = [(0, 1, 10000000000000000), (1, 2, 1), (2, 3, 1)] \<and>
        prims_mst_float 4 adj =
          (10000000000000000, [(0, 1, 10000000000000000), (1, 2, 1), (2, 3, 1)])) \<and>
   \<not> \<bar>10000000000000002 - 10000000000000000 :: real\<bar> < 1 / 10 ^ 9"
proof -
  let ?P = "[(0, 1, 10000000000000000), (1, 2, 1), (2, 3, 1)] :: edge list"
  have c0: "connected_graph 0 (set [])" by (simp add: connected_graph_def)
  have k0: "kruskals_mst_float 0 [] = Some (Inr (0, []))"
    by (simp add: kruskals_mst_float_def kruskals_run_float_def)
  have p0: "case build_graph 0 [] of Inl e \<Rightarrow> False
    | Inr (el, adj) \<Rightarrow> el = [] \<and> prims_mst_float 0 adj = (0, [])"
    by (simp add: build_graph_def prims_mst_float_def)
  have wf: "wf_edges 4 (set ?P)" by (simp add: wf_edges_def)
  have e: "(0, 1) \<in> adj_rel (set ?P)" "(1, 2) \<in> adj_rel (set ?P)" "(2, 3) \<in> adj_rel (set ?P)"
    by (auto simp: adj_rel_def)
  have conn: "connected_graph 4 (set ?P)"
  proof (rule connected_from_zero)
    fix a :: int assume "0 \<le> a" "a < 4"
    then have "a = 0 \<or> a = 1 \<or> a = 2 \<or> a = 3" by auto
    then show "(0, a) \<in> (adj_rel (set ?P))\<^sup>*"
      using e by (auto intro: rtrancl.rtrancl_into_rtrancl)
  qed
  have "kruskals_mst 4 ?P =
      Some (Inr (10000000000000002, [(1, 2, 1), (2, 3, 1), (0, 1, 10000000000000000)]))"
    by code_simp
  then have k: "kruskals_mst_float 4 ?P =
      Some (Inr (10000000000000002, [(1, 2, 1), (2, 3, 1), (0, 1, 10000000000000000)]))"
    by (simp add: kruskals_mst_float_sim edge_weight_triple float_sum_small_first)
  have "case build_graph 4 ?P of Inl e \<Rightarrow> False
    | Inr (el, adj) \<Rightarrow> el = ?P \<and> prims_mst 4 adj = (10000000000000002, ?P)"
    by code_simp
  then have p: "case build_graph 4 ?P of Inl e \<Rightarrow> False
    | Inr (el, adj) \<Rightarrow> el = ?P \<and> prims_mst_float 4 adj = (10000000000000000, ?P)"
    by (auto split: sum.splits
        simp: prims_mst_float_sim edge_weight_triple float_sum_big_first)
  have d: "\<not> \<bar>10000000000000002 - 10000000000000000 :: real\<bar> < 1 / 10 ^ 9" by simp
  from c0 k0 p0 wf conn k p d show ?thesis by simp
qed

theorem engines_agree_float_witness:
  "(1::int) \<le> 3 \<and> wf_edges 3 (set [(0, 1, 1), (1, 2, 2), (0, 2, 4)]) \<and>
   connected_graph 3 (set [(0, 1, 1), (1, 2, 2), (0, 2, 4)]) \<and>
   list_all (\<lambda>e. edge_weight e \<in> \<int> \<and> 0 \<le> edge_weight e \<and> edge_weight e \<le> 4)
     [(0, 1, 1), (1, 2, 2), (0, 2, 4)] \<and>
   4 * real_of_int (3 - 1) \<le> 2 ^ 53 \<and> (3::int) - 1 \<le> 2 ^ 52 \<and>
   (\<exists>c sel adj c' sel'.
      kruskals_mst_float 3 [(0, 1, 1), (1, 2, 2), (0, 2, 4)] = Some (Inr (c, sel)) \<and>
      build_graph 3 [(0, 1, 1), (1, 2, 2), (0, 2, 4)] =
        Inr ([(0, 1, 1), (1, 2, 2), (0, 2, 4)], adj) \<and>
      prims_mst_float 3 adj = (c', sel') \<and>
      int (length sel) = 3 - 1 \<and> int (length sel') = 3 - 1 \<and>
      c = float_sum (map edge_weight sel) \<and> c' = float_sum (map edge_weight sel') \<and>
      \<bar>c - c'\<bar> \<le> 3 * real_of_int (3 - 1) * unit_roundoff * sum_list (map edge_weight sel) \<and>
      c = c' \<and> c = sum_list (map edge_weight sel))"
proof -
  let ?es = "[(0, 1, 1), (1, 2, 2), (0, 2, 4)] :: edge list"
  have V: "(1::int) \<le> 3" by simp
  have wf: "wf_edges 3 (set ?es)" by (simp add: wf_edges_def)
  have e: "(0, 1) \<in> adj_rel (set ?es)" "(1, 2) \<in> adj_rel (set ?es)"
    by (auto simp: adj_rel_def)
  have conn: "connected_graph 3 (set ?es)"
  proof (rule connected_from_zero)
    fix a :: int assume "0 \<le> a" "a < 3"
    then have "a = 0 \<or> a = 1 \<or> a = 2" by auto
    then show "(0, a) \<in> (adj_rel (set ?es))\<^sup>*"
      using e by (auto intro: rtrancl.rtrancl_into_rtrancl)
  qed
  have w: "\<forall>e \<in> set ?es. edge_weight e \<in> \<int> \<and> 0 \<le> edge_weight e \<and> edge_weight e \<le> 4"
    by (simp add: edge_weight_def)
  then have nn: "\<forall>e \<in> set ?es. 0 \<le> edge_weight e" by blast
  have wl: "list_all (\<lambda>e. edge_weight e \<in> \<int> \<and> 0 \<le> edge_weight e \<and> edge_weight e \<le> 4) ?es"
    by (simp add: edge_weight_def)
  have s: "4 * real_of_int (3 - 1) \<le> 2 ^ 53" "(3::int) - 1 \<le> 2 ^ 52" by simp_all
  from engines_agree_float [OF V wf conn, of 4] obtain c sel adj c' sel' where
    "kruskals_mst_float 3 ?es = Some (Inr (c, sel))"
    "build_graph 3 ?es = Inr (?es, adj)" "prims_mst_float 3 adj = (c', sel')"
    "int (length sel) = 3 - 1" "int (length sel') = 3 - 1"
    "c = float_sum (map edge_weight sel)" "c' = float_sum (map edge_weight sel')"
    "(\<forall>e \<in> set ?es. 0 \<le> edge_weight e) \<and> (3::int) - 1 \<le> 2 ^ 52 \<longrightarrow>
       \<bar>c - c'\<bar> \<le> 3 * real_of_int (3 - 1) * unit_roundoff * sum_list (map edge_weight sel)"
    "(\<forall>e \<in> set ?es. edge_weight e \<in> \<int> \<and> 0 \<le> edge_weight e \<and> edge_weight e \<le> 4) \<and>
       4 * real_of_int (3 - 1) \<le> 2 ^ 53 \<longrightarrow> c = c' \<and> c = sum_list (map edge_weight sel)"
    by blast
  with V wf conn w wl nn s show ?thesis by blast
qed


end
